theory Spec2Isabelle
  imports
    Main
    "HOL-Library.Char_ord"
    "HOL-Library.List_Lexorder"
    "HOL-Library.AList"
begin

section \<open>JavaScript strings and values\<close>

text \<open>
  Strings are \<^typ>\<open>string\<close>; \<open><\<close> and \<open>\<le>\<close> on them are the lexicographic order
  on character codes, which is how JavaScript compares two strings. Case folding is
  modelled on the letters \<open>A\<close> to \<open>Z\<close>; other characters are left as they are.
\<close>

definition toLowerChar :: "char \<Rightarrow> char" where
  "toLowerChar c =
     (if CHR ''A'' \<le> c \<and> c \<le> CHR ''Z'' then char_of (of_char c + (32::nat)) else c)"

definition toLowerCase :: "string \<Rightarrow> string" where
  "toLowerCase s = map toLowerChar s"

text \<open>\<open>s.startsWith(t)\<close> and \<open>s.includes(t)\<close>.\<close>

fun startsWith :: "string \<Rightarrow> string \<Rightarrow> bool" where
  "startsWith s [] = True"
| "startsWith [] (d # t) = False"
| "startsWith (c # s) (d # t) = (c = d \<and> startsWith s t)"

fun includesStr :: "string \<Rightarrow> string \<Rightarrow> bool" where
  "includesStr [] t = (t = [])"
| "includesStr (c # s) t = (startsWith (c # s) t \<or> includesStr s t)"

text \<open>\<open>xs.join(sep)\<close> on an array of strings.\<close>

fun join :: "string \<Rightarrow> string list \<Rightarrow> string" where
  "join sep [] = []"
| "join sep [x] = x"
| "join sep (x # y # ys) = x @ sep @ join sep (y # ys)"

text \<open>
  Property values are untyped in the graph (\<open>{ [key: string]: any }\<close>). Numbers are
  integers here; \<open>JObject\<close> stands for any array or object (truthy, not a string).
\<close>

datatype jsval = JUndefined | JNull | JBool bool | JNum int | JStr string | JObject

fun truthy :: "jsval \<Rightarrow> bool" where
  "truthy JUndefined = False"
| "truthy JNull = False"
| "truthy (JBool b) = b"
| "truthy (JNum n) = (n \<noteq> 0)"
| "truthy (JStr s) = (s \<noteq> [])"
| "truthy JObject = True"

text \<open>\<open>a || b\<close>\<close>

definition js_or :: "jsval \<Rightarrow> jsval \<Rightarrow> jsval" where
  "js_or a b = (if truthy a then a else b)"

text \<open>Calling a string method on a value that is not a string raises \<open>TypeError\<close>.\<close>

datatype error = TypeError

section \<open>The graph\<close>

record CodeGraphNode =
  nodeId :: string
  nodeLabels :: "string list option"
  nodeProperties :: "(string \<rightharpoonup> jsval) option"

record CodeGraphRelationship =
  relId :: string
  relType :: "string option"
  startNode :: string
  endNode :: string

text \<open>\<open>node.properties || {}\<close> and the read of one property (\<open>undefined\<close> when absent).\<close>

definition propsOf :: "CodeGraphNode \<Rightarrow> (string \<rightharpoonup> jsval)" where
  "propsOf node = (case nodeProperties node of None \<Rightarrow> Map.empty | Some m \<Rightarrow> m)"

definition getProp :: "(string \<rightharpoonup> jsval) \<Rightarrow> string \<Rightarrow> jsval" where
  "getProp props k = (case props k of None \<Rightarrow> JUndefined | Some v \<Rightarrow> v)"

section \<open>circular-deps.ts\<close>

definition DEFAULT_EXCLUDE_PATTERNS :: "string list" where
  "DEFAULT_EXCLUDE_PATTERNS =
     [''**/node_modules/**'', ''**/dist/**'', ''**/build/**'', ''**/.git/**'',
      ''**/vendor/**'', ''**/target/**'',
      ''**/*.test.ts'', ''**/*.test.tsx'', ''**/*.test.js'', ''**/*.test.jsx'',
      ''**/*.spec.ts'', ''**/*.spec.tsx'', ''**/*.spec.js'', ''**/*.spec.jsx'',
      ''**/__tests__/**'', ''**/__mocks__/**'']"

text \<open>
  \<open>minimatch\<close> is the glob library the program imports. It is a parameter \<open>mm\<close> of the
  model: \<open>mm path pattern\<close> is the library's answer on a string path and a usable pattern.
\<close>

definition shouldIgnoreFile :: "(string \<Rightarrow> string \<Rightarrow> bool) \<Rightarrow> string \<Rightarrow> string list \<Rightarrow> bool" where
  "shouldIgnoreFile mm filePath ignorePatterns =
     list_ex (\<lambda>pattern. mm filePath pattern) (DEFAULT_EXCLUDE_PATTERNS @ ignorePatterns)"

definition normalizePath :: "string \<Rightarrow> string" where
  "normalizePath v = map (\<lambda>c. if c = CHR 0x5C then CHR ''/'' else c) v"

definition getFilePathFromNode :: "CodeGraphNode \<Rightarrow> jsval" where
  "getFilePathFromNode node =
     (let props = propsOf node in
      js_or (js_or (js_or (js_or (getProp props ''filePath'') (getProp props ''path''))
                          (getProp props ''file''))
                   (getProp props ''name''))
            (JStr (nodeId node)))"

definition dependencyMarkers :: "string list" where
  "dependencyMarkers =
     [''import'', ''depend'', ''require'', ''use'', ''include'', ''reference'', ''module'']"

definition isDependencyRelationship :: "CodeGraphRelationship \<Rightarrow> bool" where
  "isDependencyRelationship rel =
     (let type = toLowerCase (case relType rel of None \<Rightarrow> [] | Some t \<Rightarrow> t) in
      if includesStr type ''call'' then False
      else list_ex (\<lambda>marker. includesStr type marker) dependencyMarkers)"

text \<open>
  \<open>rotateToSmallest\<close>: the loop \<open>for (i = 1; i < values.length; i += 1)\<close> keeps the index
  of the first smallest element.
\<close>

function minIndexLoop :: "string list \<Rightarrow> nat \<Rightarrow> nat \<Rightarrow> nat" where
  "minIndexLoop values i minIndex =
     (if i < length values
      then minIndexLoop values (i + 1) (if values ! i < values ! minIndex then i else minIndex)
      else minIndex)"
  by pat_completeness auto
termination
  by (relation "measure (\<lambda>(values, i, minIndex). length values - i)") auto

declare minIndexLoop.simps [simp del]

definition rotateToSmallest :: "string list \<Rightarrow> string list" where
  "rotateToSmallest values =
     (if length values = 0 then values
      else let minIndex = minIndexLoop values 1 0
           in drop minIndex values @ take minIndex values)"

definition normalizeCycle :: "string list \<Rightarrow> string list" where
  "normalizeCycle cycle =
     (let trimmed = (if length cycle > 1 \<and> cycle ! 0 = cycle ! (length cycle - 1)
                     then butlast cycle else cycle);
          forward = rotateToSmallest trimmed;
          backward = rotateToSmallest (rev trimmed);
          forwardKey = join ''->'' forward;
          backwardKey = join ''->'' backward
      in if forwardKey \<le> backwardKey then forward else backward)"

text \<open>The test \<open>/\.[^/]+$/\<close>: a dot followed by at least one character, none of them a slash, up to the end.\<close>

fun hasExtension :: "string \<Rightarrow> bool" where
  "hasExtension [] = False"
| "hasExtension (c # s) = ((c = CHR ''.'' \<and> s \<noteq> [] \<and> CHR ''/'' \<notin> set s) \<or> hasExtension s)"

definition extensions :: "string list" where
  "extensions = [''.ts'', ''.tsx'', ''.js'', ''.jsx'', ''.mjs'', ''.cjs'']"

fun resolveLoop :: "string \<Rightarrow> string set \<Rightarrow> string list \<Rightarrow> string option" where
  "resolveLoop normalized referencePaths [] = None"
| "resolveLoop normalized referencePaths (ext # exts) =
     (let withExt = normalized @ ext in
      if withExt \<in> referencePaths then Some withExt
      else let withIndex = normalized @ ''/index'' @ ext in
           if withIndex \<in> referencePaths then Some withIndex
           else resolveLoop normalized referencePaths exts)"

definition resolveFilePath :: "string \<Rightarrow> string set \<Rightarrow> string option" where
  "resolveFilePath candidate referencePaths =
     (let normalized = normalizePath candidate in
      if normalized \<in> referencePaths then Some normalized
      else if \<not> hasExtension normalized then resolveLoop normalized referencePaths extensions
      else None)"

text \<open>\<open>resolveFilePath(rawPath, referencePaths) || rawPath\<close>\<close>

definition resolvedOrRaw :: "string \<Rightarrow> string set \<Rightarrow> string" where
  "resolvedOrRaw rawPath referencePaths =
     (case resolveFilePath rawPath referencePaths of
        None \<Rightarrow> rawPath
      | Some r \<Rightarrow> if r = [] then rawPath else r)"

subsection \<open>findCircularDependencies: building the graph\<close>

record CircularDependencyResult =
  id_c :: string
  cycle :: "string list"
  length_c :: nat

text \<open>\<open>node.labels?.some(label => label === 'File' || label === 'Module')\<close>\<close>

definition isFileOrModule :: "CodeGraphNode \<Rightarrow> bool" where
  "isFileOrModule node =
     (case nodeLabels node of None \<Rightarrow> False
      | Some ls \<Rightarrow> list_ex (\<lambda>label. label = ''File'' \<or> label = ''Module'') ls)"

text \<open>
  \<open>normalizePath(getFilePathFromNode(node))\<close>: \<open>value.replace\<close> exists on strings only, so
  any other value raises.
\<close>

definition rawPathOf :: "CodeGraphNode \<Rightarrow> error + string" where
  "rawPathOf node =
     (case getFilePathFromNode node of JStr s \<Rightarrow> Inr (normalizePath s) | _ \<Rightarrow> Inl TypeError)"

text \<open>The first loop: the paths of the File and Module nodes that are not ignored.\<close>

fun collectFileNodePaths ::
  "(string \<Rightarrow> string \<Rightarrow> bool) \<Rightarrow> string list \<Rightarrow> CodeGraphNode list \<Rightarrow> string set \<Rightarrow> error + string set" where
  "collectFileNodePaths mm ignorePatterns [] fileNodePaths = Inr fileNodePaths"
| "collectFileNodePaths mm ignorePatterns (node # nodes) fileNodePaths =
     (if \<not> isFileOrModule node then collectFileNodePaths mm ignorePatterns nodes fileNodePaths
      else case rawPathOf node of
        Inl e \<Rightarrow> Inl e
      | Inr rawPath \<Rightarrow>
          if rawPath = [] \<or> shouldIgnoreFile mm rawPath ignorePatterns
          then collectFileNodePaths mm ignorePatterns nodes fileNodePaths
          else collectFileNodePaths mm ignorePatterns nodes (insert rawPath fileNodePaths))"

text \<open>The second loop, run when the first found nothing: the paths of all nodes that are not ignored.\<close>

fun collectAllNodePaths ::
  "(string \<Rightarrow> string \<Rightarrow> bool) \<Rightarrow> string list \<Rightarrow> CodeGraphNode list \<Rightarrow> string set \<Rightarrow> error + string set" where
  "collectAllNodePaths mm ignorePatterns [] referencePaths = Inr referencePaths"
| "collectAllNodePaths mm ignorePatterns (node # nodes) referencePaths =
     (case rawPathOf node of
        Inl e \<Rightarrow> Inl e
      | Inr rawPath \<Rightarrow>
          if rawPath = [] \<or> shouldIgnoreFile mm rawPath ignorePatterns
          then collectAllNodePaths mm ignorePatterns nodes referencePaths
          else collectAllNodePaths mm ignorePatterns nodes (insert rawPath referencePaths))"

text \<open>
  A \<open>Map\<close> is an association list in insertion order; \<open>set\<close> on a key that is present
  replaces the value where it stands, which is \<^const>\<open>AList.update\<close>.
  The third loop: \<open>filePathById\<close>.
\<close>

fun buildFilePathById ::
  "(string \<Rightarrow> string \<Rightarrow> bool) \<Rightarrow> string list \<Rightarrow> string set \<Rightarrow> CodeGraphNode list \<Rightarrow>
   (string \<times> string) list \<Rightarrow> error + (string \<times> string) list" where
  "buildFilePathById mm ignorePatterns referencePaths [] filePathById = Inr filePathById"
| "buildFilePathById mm ignorePatterns referencePaths (node # nodes) filePathById =
     (case rawPathOf node of
        Inl e \<Rightarrow> Inl e
      | Inr rawPath \<Rightarrow>
          if rawPath = [] \<or> shouldIgnoreFile mm rawPath ignorePatterns
          then buildFilePathById mm ignorePatterns referencePaths nodes filePathById
          else let resolved = resolvedOrRaw rawPath referencePaths
               in buildFilePathById mm ignorePatterns referencePaths nodes
                    (AList.update (nodeId node) resolved filePathById))"

text \<open>The adjacency map: one entry, at first empty, for every path in \<open>filePathById\<close>.\<close>

type_synonym adjacency = "(string \<times> string list) list"

fun initAdjacency :: "string list \<Rightarrow> adjacency \<Rightarrow> adjacency" where
  "initAdjacency [] adjacency = adjacency"
| "initAdjacency (filePath # filePaths) adjacency =
     (if map_of adjacency filePath = None
      then initAdjacency filePaths (adjacency @ [(filePath, [])])
      else initAdjacency filePaths adjacency)"

text \<open>\<open>Set.add\<close> on a set that is iterated later: insertion order, no duplicates.\<close>

definition setAdd :: "string \<Rightarrow> string list \<Rightarrow> string list" where
  "setAdd x xs = (if x \<in> set xs then xs else xs @ [x])"

fun addEdges :: "(string \<times> string) list \<Rightarrow> CodeGraphRelationship list \<Rightarrow> adjacency \<Rightarrow> adjacency" where
  "addEdges filePathById [] adjacency = adjacency"
| "addEdges filePathById (rel # rels) adjacency =
     (case (map_of filePathById (startNode rel), map_of filePathById (endNode rel)) of
        (Some startPath, Some endPath) \<Rightarrow>
          if startPath = [] \<or> endPath = [] then addEdges filePathById rels adjacency
          else if startPath = endPath then addEdges filePathById rels adjacency
          else (case map_of adjacency startPath of
                  None \<Rightarrow> addEdges filePathById rels adjacency
                | Some targets \<Rightarrow>
                    addEdges filePathById rels
                      (AList.update startPath (setAdd endPath targets) adjacency))
      | _ \<Rightarrow> addEdges filePathById rels adjacency)"

subsection \<open>findCircularDependencies: the search\<close>

text \<open>
  The state the closure \<open>dfs\<close> shares with its caller. \<open>stack\<close> grows at its end.
\<close>

record dfs_state =
  results :: "CircularDependencyResult list"
  seenCycles :: "string set"
  visited :: "string set"
  stack :: "string list"
  onStack :: "string set"

text \<open>\<open>stack.indexOf(x)\<close> (\<open>-1\<close> when absent) and \<open>stack.slice(start)\<close> (a negative start counts from the end).\<close>

fun indexOfFrom :: "string list \<Rightarrow> string \<Rightarrow> nat \<Rightarrow> int" where
  "indexOfFrom [] x i = - 1"
| "indexOfFrom (y # ys) x i = (if y = x then int i else indexOfFrom ys x (Suc i))"

definition indexOf :: "string list \<Rightarrow> string \<Rightarrow> int" where
  "indexOf xs x = indexOfFrom xs x 0"

definition sliceFrom :: "string list \<Rightarrow> int \<Rightarrow> string list" where
  "sliceFrom xs start =
     (if start < 0 then drop (nat (int (length xs) + start)) xs else drop (nat start) xs)"

text \<open>The body of \<open>if (onStack.has(neighbor))\<close>: a back edge closes a cycle.\<close>

definition reportBackEdge :: "string \<Rightarrow> dfs_state \<Rightarrow> dfs_state" where
  "reportBackEdge neighbor st =
     (let cycleStartIndex = indexOf (stack st) neighbor;
          cycleIds = sliceFrom (stack st) cycleStartIndex @ [neighbor];
          normalized = normalizeCycle cycleIds;
          cycleKey = join ''->'' normalized
      in if cycleKey \<notin> seenCycles st
         then st\<lparr>seenCycles := insert cycleKey (seenCycles st),
                 results := results st @
                   [\<lparr>id_c = cycleKey, cycle = normalized, length_c = length normalized\<rparr>]\<rparr>
         else st)"

text \<open>
  \<open>dfs\<close> calls itself; the first argument bounds the depth of these calls, and \<open>None\<close>
  means the bound was reached. \<open>forNeighbors\<close> is the loop over the neighbours of one node.
\<close>

fun dfs :: "nat \<Rightarrow> adjacency \<Rightarrow> string \<Rightarrow> dfs_state \<Rightarrow> dfs_state option"
  and forNeighbors :: "nat \<Rightarrow> adjacency \<Rightarrow> string list \<Rightarrow> dfs_state \<Rightarrow> dfs_state option" where
  "dfs 0 adjacency nodePath st = None"
| "dfs (Suc depth) adjacency nodePath st =
     (let st1 = st\<lparr>visited := insert nodePath (visited st),
                    stack := stack st @ [nodePath],
                    onStack := insert nodePath (onStack st)\<rparr>;
          neighbors = (case map_of adjacency nodePath of None \<Rightarrow> [] | Some ns \<Rightarrow> ns)
      in case forNeighbors depth adjacency neighbors st1 of
           None \<Rightarrow> None
         | Some st2 \<Rightarrow>
             Some (st2\<lparr>stack := butlast (stack st2), onStack := onStack st2 - {nodePath}\<rparr>))"
| "forNeighbors depth adjacency [] st = Some st"
| "forNeighbors depth adjacency (neighbor # rest) st =
     (if neighbor \<notin> visited st
      then (case dfs depth adjacency neighbor st of
              None \<Rightarrow> None
            | Some st' \<Rightarrow> forNeighbors depth adjacency rest st')
      else forNeighbors depth adjacency rest
             (if neighbor \<in> onStack st then reportBackEdge neighbor st else st))"

text \<open>The loop \<open>for (const nodePath of adjacency.keys())\<close>.\<close>

fun dfsRoots :: "nat \<Rightarrow> adjacency \<Rightarrow> string list \<Rightarrow> dfs_state \<Rightarrow> dfs_state option" where
  "dfsRoots depth adjacency [] st = Some st"
| "dfsRoots depth adjacency (nodePath # nodePaths) st =
     (if nodePath \<notin> visited st
      then (case dfs depth adjacency nodePath st of
              None \<Rightarrow> None
            | Some st' \<Rightarrow> dfsRoots depth adjacency nodePaths st')
      else dfsRoots depth adjacency nodePaths st)"

text \<open>
  The depth allowed to \<open>dfs\<close>: the number of path occurrences in the adjacency map.
  The search never needs more (\<open>findCircularDependencies_returns\<close> below).
\<close>

definition dfsBudget :: "adjacency \<Rightarrow> nat" where
  "dfsBudget adjacency = length (concat (map (\<lambda>(k, ns). k # ns) adjacency))"

definition initialState :: dfs_state where
  "initialState = \<lparr>results = [], seenCycles = {}, visited = {}, stack = [], onStack = {}\<rparr>"

definition buildAdjacency :: "(string \<times> string) list \<Rightarrow> CodeGraphRelationship list \<Rightarrow> adjacency" where
  "buildAdjacency filePathById relationships =
     addEdges filePathById (filter isDependencyRelationship relationships)
       (initAdjacency (map snd filePathById) [])"

text \<open>
  \<open>findCircularDependencies\<close>. \<open>Some (Inr results)\<close> is a normal return, \<open>Some (Inl e)\<close> a
  raised exception, \<open>None\<close> a search that exceeded its depth bound.
\<close>

definition findCircularDependencies ::
  "(string \<Rightarrow> string \<Rightarrow> bool) \<Rightarrow> CodeGraphNode list \<Rightarrow> CodeGraphRelationship list \<Rightarrow> string list \<Rightarrow>
   (error + CircularDependencyResult list) option" where
  "findCircularDependencies mm nodes relationships ignorePatterns =
     (case collectFileNodePaths mm ignorePatterns nodes {} of
        Inl e \<Rightarrow> Some (Inl e)
      | Inr fileNodePaths \<Rightarrow>
          (case (if fileNodePaths = {} then collectAllNodePaths mm ignorePatterns nodes {}
                 else Inr fileNodePaths) of
             Inl e \<Rightarrow> Some (Inl e)
           | Inr referencePaths \<Rightarrow>
               (case buildFilePathById mm ignorePatterns referencePaths nodes [] of
                  Inl e \<Rightarrow> Some (Inl e)
                | Inr filePathById \<Rightarrow>
                    (let adjacency = buildAdjacency filePathById relationships in
                     case dfsRoots (dfsBudget adjacency) adjacency (map fst adjacency) initialState of
                       None \<Rightarrow> None
                     | Some st \<Rightarrow> Some (Inr (results st))))))"

subsection \<open>formatPrComment\<close>

definition digitChar :: "nat \<Rightarrow> char" where
  "digitChar d = char_of (48 + d)"

function showNat :: "nat \<Rightarrow> string" where
  "showNat n = (if n < 10 then [digitChar n] else showNat (n div 10) @ [digitChar (n mod 10)])"
  by pat_completeness auto
termination
  by (relation "measure (\<lambda>n. n)") auto

declare showNat.simps [simp del]

definition NL :: string where
  "NL = [CHR 0x0A]"

text \<open>
  \<open>cycle.cycle.concat(cycle.cycle[0]).join(' -> ')\<close>; on an empty array the appended element is
  \<open>undefined\<close>, which \<open>join\<close> prints as the empty string.
\<close>

definition closedPath :: "string list \<Rightarrow> string" where
  "closedPath c = join '' -> '' (c @ [case c of [] \<Rightarrow> [] | x # _ \<Rightarrow> x])"

definition formatRow :: "nat \<times> CircularDependencyResult \<Rightarrow> string" where
  "formatRow = (\<lambda>(index, c). ''| '' @ showNat (index + 1) @ '' | '' @ closedPath (cycle c) @ '' |'')"

definition formatPrComment :: "CircularDependencyResult list \<Rightarrow> string" where
  "formatPrComment cycles =
     (if length cycles = 0
      then ''## Circular Dependency Hunter'' @ NL @ NL @
           ''No circular dependencies found! Your codebase is clean.''
      else
        let rows = join NL (map formatRow (enumerate 0 (take 50 cycles)));
            comment = ''## Circular Dependency Hunter'' @ NL @ NL @
              ''Found **'' @ showNat (length cycles) @ ''** circular dependenc'' @
              (if length cycles = 1 then ''y'' else ''ies'') @ '':'' @ NL @ NL @
              ''| # | Cycle |'' @ NL @
              ''|---|-------|'' @ NL @ rows;
            comment = (if length cycles > 50
                       then comment @ NL @ NL @ ''_...and '' @ showNat (length cycles - 50) @
                            '' more. See action output for full list._''
                       else comment)
        in comment @ NL @ NL @ ''---'' @ NL @
           ''_Powered by [Supermodel](https://supermodeltools.com) graph analysis_'')"

section \<open>dead-code.ts\<close>

text \<open>
  This file has its own copies of \<open>DEFAULT_EXCLUDE_PATTERNS\<close> and \<open>shouldIgnoreFile\<close>, equal
  to the ones above.
\<close>

record DeadCodeResult =
  id_d :: string
  name :: string
  filePath :: string
  startLine :: jsval
  endLine :: jsval

definition ENTRY_POINT_PATTERNS :: "string list" where
  "ENTRY_POINT_PATTERNS =
     [''**/index.ts'', ''**/index.js'', ''**/main.ts'', ''**/main.js'', ''**/app.ts'',
      ''**/app.js'', ''**/*.test.*'', ''**/*.spec.*'', ''**/__tests__/**'']"

definition ENTRY_POINT_FUNCTION_NAMES :: "string list" where
  "ENTRY_POINT_FUNCTION_NAMES =
     [''main'', ''run'', ''start'', ''init'', ''setup'', ''bootstrap'', ''default'', ''handler'',
      ''GET'', ''POST'', ''PUT'', ''DELETE'', ''PATCH'']"

definition isEntryPointFile :: "(string \<Rightarrow> string \<Rightarrow> bool) \<Rightarrow> string \<Rightarrow> bool" where
  "isEntryPointFile mm fp = list_ex (\<lambda>pattern. mm fp pattern) ENTRY_POINT_PATTERNS"

definition isEntryPointFunction :: "string \<Rightarrow> bool" where
  "isEntryPointFunction nm =
     (let lowerName = toLowerCase nm
      in list_ex (\<lambda>ep. lowerName = toLowerCase ep) ENTRY_POINT_FUNCTION_NAMES)"

text \<open>\<open>node.labels?.includes('Function')\<close>\<close>

definition isFunctionNode :: "CodeGraphNode \<Rightarrow> bool" where
  "isFunctionNode node = (case nodeLabels node of None \<Rightarrow> False | Some ls \<Rightarrow> ''Function'' \<in> set ls)"

definition calledFunctionIds :: "CodeGraphRelationship list \<Rightarrow> string set" where
  "calledFunctionIds relationships =
     set (map endNode (filter (\<lambda>rel. relType rel = Some ''calls'') relationships))"

text \<open>\<open>props.filePath || props.file || ''\<close> and \<open>props.name || 'anonymous'\<close>\<close>

definition deadCodeFilePath :: "CodeGraphNode \<Rightarrow> jsval" where
  "deadCodeFilePath node =
     (let props = propsOf node
      in js_or (js_or (getProp props ''filePath'') (getProp props ''file'')) (JStr []))"

definition deadCodeName :: "CodeGraphNode \<Rightarrow> jsval" where
  "deadCodeName node = (let props = propsOf node in js_or (getProp props ''name'') (JStr ''anonymous''))"

definition isExportedNode :: "CodeGraphNode \<Rightarrow> bool" where
  "isExportedNode node =
     (let props = propsOf node
      in getProp props ''exported'' = JBool True \<or> getProp props ''isExported'' = JBool True)"

text \<open>
  The loop over the Function nodes. The glob library splits the path it is given and
  \<open>isEntryPointFunction\<close> lower-cases the name: both raise on a value that is not a string.
\<close>

fun deadCodeLoop ::
  "(string \<Rightarrow> string \<Rightarrow> bool) \<Rightarrow> string list \<Rightarrow> string set \<Rightarrow> CodeGraphNode list \<Rightarrow>
   DeadCodeResult list \<Rightarrow> error + DeadCodeResult list" where
  "deadCodeLoop mm ignorePatterns called [] deadCode = Inr deadCode"
| "deadCodeLoop mm ignorePatterns called (node # nodes) deadCode =
     (if nodeId node \<in> called then deadCodeLoop mm ignorePatterns called nodes deadCode
      else case deadCodeFilePath node of
        JStr fp \<Rightarrow>
          if shouldIgnoreFile mm fp ignorePatterns
          then deadCodeLoop mm ignorePatterns called nodes deadCode
          else if isEntryPointFile mm fp
          then deadCodeLoop mm ignorePatterns called nodes deadCode
          else (case deadCodeName node of
                  JStr nm \<Rightarrow>
                    if isEntryPointFunction nm
                    then deadCodeLoop mm ignorePatterns called nodes deadCode
                    else if isExportedNode node
                    then deadCodeLoop mm ignorePatterns called nodes deadCode
                    else deadCodeLoop mm ignorePatterns called nodes
                           (deadCode @
                              [\<lparr>id_d = nodeId node, name = nm, filePath = fp,
                                startLine = getProp (propsOf node) ''startLine'',
                                endLine = getProp (propsOf node) ''endLine''\<rparr>])
                | _ \<Rightarrow> Inl TypeError)
      | _ \<Rightarrow> Inl TypeError)"

text \<open>The five tests of the loop body on one node whose path and name are strings.\<close>

definition deadCodeKeeps ::
  "(string \<Rightarrow> string \<Rightarrow> bool) \<Rightarrow> string list \<Rightarrow> string set \<Rightarrow> CodeGraphNode \<Rightarrow> bool" where
  "deadCodeKeeps mm ignorePatterns called node =
     (nodeId node \<notin> called \<and>
      \<not> shouldIgnoreFile mm (case deadCodeFilePath node of JStr s \<Rightarrow> s | _ \<Rightarrow> []) ignorePatterns \<and>
      \<not> isEntryPointFile mm (case deadCodeFilePath node of JStr s \<Rightarrow> s | _ \<Rightarrow> []) \<and>
      \<not> isEntryPointFunction (case deadCodeName node of JStr s \<Rightarrow> s | _ \<Rightarrow> []) \<and>
      \<not> isExportedNode node)"

definition findDeadCode ::
  "(string \<Rightarrow> string \<Rightarrow> bool) \<Rightarrow> CodeGraphNode list \<Rightarrow> CodeGraphRelationship list \<Rightarrow> string list \<Rightarrow>
   error + DeadCodeResult list" where
  "findDeadCode mm nodes relationships ignorePatterns =
     deadCodeLoop mm ignorePatterns (calledFunctionIds relationships)
       (filter isFunctionNode nodes) []"

section \<open>A glob matcher to run the program with\<close>

text \<open>
  The theorems below hold for every matcher \<open>mm\<close>. To run the program on concrete graphs,
  \<open>globMatch\<close> follows the glob library with its default options on the patterns built from
  literal characters, \<open>*\<close> inside a path segment and \<open>**\<close> as a whole segment: a \<open>*\<close> matches
  any run of characters of one segment, a \<open>**\<close> any run of segments, and neither matches a
  segment that starts with a dot.
\<close>

fun splitOn :: "char \<Rightarrow> string \<Rightarrow> string list" where
  "splitOn c [] = [[]]"
| "splitOn c (x # xs) =
     (if x = c then [] # splitOn c xs
      else (case splitOn c xs of [] \<Rightarrow> [[x]] | w # ws \<Rightarrow> (x # w) # ws))"

fun starMatch :: "string \<Rightarrow> string \<Rightarrow> bool" where
  "starMatch [] f = (f = [])"
| "starMatch (p # ps) [] = (p = CHR ''*'' \<and> starMatch ps [])"
| "starMatch (p # ps) (c # cs) =
     (if p = CHR ''*'' then starMatch ps (c # cs) \<or> starMatch (p # ps) cs
      else p = c \<and> starMatch ps cs)"

definition segMatch :: "string \<Rightarrow> string \<Rightarrow> bool" where
  "segMatch p f =
     (if CHR ''*'' \<in> set p
      then f \<noteq> [] \<and> (if startsWith f ''.'' then startsWith p ''.'' else True) \<and> starMatch p f
      else p = f)"

fun matchOne :: "string list \<Rightarrow> string list \<Rightarrow> bool" where
  "matchOne [] [] = True"
| "matchOne [] (f # fs) = (fs = [] \<and> f = [])"
| "matchOne (p # ps) [] = False"
| "matchOne (p # ps) (f # fs) =
     (if p = ''**''
      then (if ps = [] then list_all (\<lambda>s. \<not> startsWith s ''.'') (f # fs)
            else matchOne ps (f # fs) \<or> (\<not> startsWith f ''.'' \<and> matchOne (p # ps) fs))
      else segMatch p f \<and> matchOne ps fs)"

definition globMatch :: "string \<Rightarrow> string \<Rightarrow> bool" where
  "globMatch path pattern = matchOne (splitOn CHR ''/'' pattern) (splitOn CHR ''/'' path)"

section \<open>The properties, in the specification's terms\<close>

text \<open>The first truthy value among the properties named by \<open>keys\<close>, or \<open>fallback\<close>.\<close>

definition firstCandidate :: "(string \<rightharpoonup> jsval) \<Rightarrow> string list \<Rightarrow> jsval \<Rightarrow> jsval" where
  "firstCandidate props keys fallback =
     (case List.find truthy (map (getProp props) keys) of None \<Rightarrow> fallback | Some v \<Rightarrow> v)"

text \<open>The candidates \<open>resolveFilePath\<close> tries after the literal value, in the order it tries them.\<close>

definition resolveCandidates :: "string \<Rightarrow> string list" where
  "resolveCandidates c =
     concat (map (\<lambda>ext. [c @ ext, c @ ''/index'' @ ext])
                 [''.ts'', ''.tsx'', ''.js'', ''.jsx'', ''.mjs'', ''.cjs''])"

text \<open>The string a value stands for where the program has already used it as a string.\<close>

definition strOf :: "jsval \<Rightarrow> string" where
  "strOf v = (case v of JStr s \<Rightarrow> s | _ \<Rightarrow> [])"

definition toDeadCodeResult :: "CodeGraphNode \<Rightarrow> DeadCodeResult" where
  "toDeadCodeResult node =
     \<lparr>id_d = nodeId node, name = strOf (deadCodeName node), filePath = strOf (deadCodeFilePath node),
      startLine = getProp (propsOf node) ''startLine'',
      endLine = getProp (propsOf node) ''endLine''\<rparr>"

text \<open>
  The five conditions under which a Function node is reported: (a) no relationship of type
  exactly \<open>calls\<close> ends at it; (b) its file path is not ignored; (c) its file path matches
  none of the nine entry-point globs; (d) its lower-cased name is none of the lower-cased
  entry-point names; (e) neither \<open>exported\<close> nor \<open>isExported\<close> is \<open>true\<close>.
\<close>

definition reportedAsDead ::
  "(string \<Rightarrow> string \<Rightarrow> bool) \<Rightarrow> CodeGraphRelationship list \<Rightarrow> string list \<Rightarrow> CodeGraphNode \<Rightarrow> bool" where
  "reportedAsDead mm relationships ignorePatterns node =
     (\<not> (\<exists>rel \<in> set relationships. relType rel = Some ''calls'' \<and> endNode rel = nodeId node) \<and>
      \<not> (\<exists>pattern \<in> set (DEFAULT_EXCLUDE_PATTERNS @ ignorePatterns).
            mm (strOf (deadCodeFilePath node)) pattern) \<and>
      \<not> (\<exists>pattern \<in> {''**/index.ts'', ''**/index.js'', ''**/main.ts'', ''**/main.js'',
                        ''**/app.ts'', ''**/app.js'', ''**/*.test.*'', ''**/*.spec.*'',
                        ''**/__tests__/**''}.
            mm (strOf (deadCodeFilePath node)) pattern) \<and>
      toLowerCase (strOf (deadCodeName node)) \<notin>
        {''main'', ''run'', ''start'', ''init'', ''setup'', ''bootstrap'', ''default'', ''handler'',
         ''get'', ''post'', ''put'', ''delete'', ''patch''} \<and>
      getProp (propsOf node) ''exported'' \<noteq> JBool True \<and>
      getProp (propsOf node) ''isExported'' \<noteq> JBool True)"

text \<open>A property that is absent, \<open>null\<close> or a string.\<close>

definition stringOrAbsent :: "jsval \<Rightarrow> bool" where
  "stringOrAbsent v = (case v of JStr s \<Rightarrow> True | JUndefined \<Rightarrow> True | JNull \<Rightarrow> True | _ \<Rightarrow> False)"

definition wellFormedNode :: "CodeGraphNode \<Rightarrow> bool" where
  "wellFormedNode node =
     list_all (\<lambda>k. stringOrAbsent (getProp (propsOf node) k)) [''filePath'', ''path'', ''file'', ''name'']"

text \<open>What the search keeps true of its state, and of the adjacency map it is given.\<close>

definition noSelfLoops :: "adjacency \<Rightarrow> bool" where
  "noSelfLoops adj = (\<forall>k ns. map_of adj k = Some ns \<longrightarrow> k \<notin> set ns)"

definition wellFormedResult :: "CircularDependencyResult \<Rightarrow> bool" where
  "wellFormedResult r =
     (2 \<le> length (cycle r) \<and> distinct (cycle r) \<and> length_c r = length (cycle r) \<and>
      id_c r = join ''->'' (cycle r))"

definition dfsInvariant :: "dfs_state \<Rightarrow> bool" where
  "dfsInvariant st =
     (distinct (stack st) \<and> set (stack st) = onStack st \<and> onStack st \<subseteq> visited st \<and>
      (\<forall>r \<in> set (results st). wellFormedResult r) \<and>
      distinct (map id_c (results st)) \<and> set (map id_c (results st)) = seenCycles st)"

section \<open>Example graphs\<close>

definition fileNode :: "string \<Rightarrow> string \<Rightarrow> CodeGraphNode" where
  "fileNode i p =
     \<lparr>nodeId = i, nodeLabels = Some [''File''], nodeProperties = Some [''filePath'' \<mapsto> JStr p]\<rparr>"

definition functionNode :: "string \<Rightarrow> (string \<rightharpoonup> jsval) \<Rightarrow> CodeGraphNode" where
  "functionNode i props = \<lparr>nodeId = i, nodeLabels = Some [''Function''], nodeProperties = Some props\<rparr>"

definition edge :: "string \<Rightarrow> string \<Rightarrow> string \<Rightarrow> CodeGraphRelationship" where
  "edge t a b = \<lparr>relId = a @ ''-'' @ b, relType = Some t, startNode = a, endNode = b\<rparr>"


section \<open>Substring tests\<close>

lemma startsWith_iff: "startsWith s t \<longleftrightarrow> (\<exists>q. s = t @ q)"
  by (induction s t rule: startsWith.induct) auto

lemma includesStr_iff: "includesStr s t \<longleftrightarrow> (\<exists>p q. s = p @ t @ q)"
proof (induction s)
  case Nil
  then show ?case by simp
next
  case (Cons c s)
  show ?case
  proof
    assume "includesStr (c # s) t"
    then consider "startsWith (c # s) t" | "includesStr s t" by auto
    then show "\<exists>p q. c # s = p @ t @ q"
    proof cases
      case 1
      then obtain q where "c # s = t @ q" by (auto simp: startsWith_iff)
      then have "c # s = [] @ t @ q" by simp
      then show ?thesis by blast
    next
      case 2
      then obtain p q where "s = p @ t @ q" using Cons.IH by blast
      then have "c # s = (c # p) @ t @ q" by simp
      then show ?thesis by blast
    qed
  next
    assume "\<exists>p q. c # s = p @ t @ q"
    then obtain p q where pq: "c # s = p @ t @ q" by blast
    show "includesStr (c # s) t"
    proof (cases p)
      case Nil
      with pq have "startsWith (c # s) t" by (auto simp: startsWith_iff)
      then show ?thesis by simp
    next
      case (Cons d p')
      with pq have "s = p' @ t @ q" by simp
      then have "includesStr s t" using Cons.IH by blast
      then show ?thesis by simp
    qed
  qed
qed

section \<open>The relationship classifier\<close>

text \<open>
  C4. With \<open>t\<close> the lower-cased type of the edge (the empty string when the edge has no
  type): \<open>isDependencyRelationship\<close> answers false when \<open>t\<close> contains \<open>call\<close> anywhere,
  whatever else it contains, and otherwise answers true exactly when \<open>t\<close> contains one of
  \<open>import\<close>, \<open>depend\<close>, \<open>require\<close>, \<open>use\<close>, \<open>include\<close>, \<open>reference\<close>, \<open>module\<close>.
  Containment is stated as a decomposition \<open>t = p @ marker @ q\<close>.
\<close>

theorem isDependencyRelationship_spec:
  fixes rel :: CodeGraphRelationship
  defines "t \<equiv> toLowerCase (case relType rel of None \<Rightarrow> [] | Some ty \<Rightarrow> ty)"
  shows "((\<exists>p q. t = p @ ''call'' @ q) \<longrightarrow> \<not> isDependencyRelationship rel) \<and>
         (\<not> (\<exists>p q. t = p @ ''call'' @ q) \<longrightarrow>
            (isDependencyRelationship rel \<longleftrightarrow>
               (\<exists>m \<in> {''import'', ''depend'', ''require'', ''use'', ''include'',
                       ''reference'', ''module''}. \<exists>p q. t = p @ m @ q)))"
  unfolding isDependencyRelationship_def t_def Let_def dependencyMarkers_def includesStr_iff
  by simp

theorem isDependencyRelationship_spec_witness:
  "\<not> isDependencyRelationship
       \<lparr>relId = ''r1'', relType = Some ''CALLS_IMPORT'', startNode = ''a'', endNode = ''b''\<rparr> \<and>
   isDependencyRelationship
       \<lparr>relId = ''r2'', relType = Some ''dependsOn'', startNode = ''a'', endNode = ''b''\<rparr> \<and>
   \<not> isDependencyRelationship
       \<lparr>relId = ''r3'', relType = Some ''extends'', startNode = ''a'', endNode = ''b''\<rparr>"
proof -
  have c1: "\<exists>p q. toLowerCase ''CALLS_IMPORT'' = p @ ''call'' @ q"
    unfolding includesStr_iff [symmetric] by code_simp
  have n2: "\<not> (\<exists>p q. toLowerCase ''dependsOn'' = p @ ''call'' @ q)"
    unfolding includesStr_iff [symmetric] by code_simp
  have m2: "\<exists>p q. toLowerCase ''dependsOn'' = p @ ''depend'' @ q"
    unfolding includesStr_iff [symmetric] by code_simp
  have n3: "\<not> (\<exists>p q. toLowerCase ''extends'' = p @ ''call'' @ q)"
    unfolding includesStr_iff [symmetric] by code_simp
  have m3: "\<not> (\<exists>m \<in> {''import'', ''depend'', ''require'', ''use'', ''include'',
                       ''reference'', ''module''}. \<exists>p q. toLowerCase ''extends'' = p @ m @ q)"
    unfolding includesStr_iff [symmetric] by code_simp
  have r1: "\<not> isDependencyRelationship
       \<lparr>relId = ''r1'', relType = Some ''CALLS_IMPORT'', startNode = ''a'', endNode = ''b''\<rparr>"
    using isDependencyRelationship_spec
      [of "\<lparr>relId = ''r1'', relType = Some ''CALLS_IMPORT'', startNode = ''a'', endNode = ''b''\<rparr>"]
      c1 by simp
  have r2: "isDependencyRelationship
       \<lparr>relId = ''r2'', relType = Some ''dependsOn'', startNode = ''a'', endNode = ''b''\<rparr>"
    using isDependencyRelationship_spec
      [of "\<lparr>relId = ''r2'', relType = Some ''dependsOn'', startNode = ''a'', endNode = ''b''\<rparr>"]
      n2 m2 by simp
  have r3: "\<not> isDependencyRelationship
       \<lparr>relId = ''r3'', relType = Some ''extends'', startNode = ''a'', endNode = ''b''\<rparr>"
    using isDependencyRelationship_spec
      [of "\<lparr>relId = ''r3'', relType = Some ''extends'', startNode = ''a'', endNode = ''b''\<rparr>"]
      n3 m3 by simp
  from r1 r2 r3 show ?thesis by blast
qed

section \<open>Path resolution\<close>

lemma normalizePath_idem: "normalizePath (normalizePath v) = normalizePath v"
  by (induction v) (auto simp: normalizePath_def)

lemma hasExtension_iff:
  "hasExtension s \<longleftrightarrow> (\<exists>p e. s = p @ ''.'' @ e \<and> e \<noteq> [] \<and> CHR ''/'' \<notin> set e)"
proof (induction s)
  case Nil
  then show ?case by simp
next
  case (Cons c s)
  show ?case
  proof
    assume "hasExtension (c # s)"
    then consider "c = CHR ''.''" "s \<noteq> []" "CHR ''/'' \<notin> set s" | "hasExtension s" by auto
    then show "\<exists>p e. c # s = p @ ''.'' @ e \<and> e \<noteq> [] \<and> CHR ''/'' \<notin> set e"
    proof cases
      case 1
      then have "c # s = [] @ ''.'' @ s \<and> s \<noteq> [] \<and> CHR ''/'' \<notin> set s" by simp
      then show ?thesis by blast
    next
      case 2
      then obtain p e where "s = p @ ''.'' @ e" "e \<noteq> []" "CHR ''/'' \<notin> set e"
        using Cons.IH by blast
      then have "c # s = (c # p) @ ''.'' @ e \<and> e \<noteq> [] \<and> CHR ''/'' \<notin> set e" by simp
      then show ?thesis by blast
    qed
  next
    assume "\<exists>p e. c # s = p @ ''.'' @ e \<and> e \<noteq> [] \<and> CHR ''/'' \<notin> set e"
    then obtain p e where pe: "c # s = p @ ''.'' @ e" "e \<noteq> []" "CHR ''/'' \<notin> set e" by blast
    show "hasExtension (c # s)"
    proof (cases p)
      case Nil
      with pe show ?thesis by auto
    next
      case (Cons d p')
      with pe have "s = p' @ ''.'' @ e" by simp
      with pe have "hasExtension s" using Cons.IH by blast
      then show ?thesis by simp
    qed
  qed
qed

lemma resolveLoop_find:
  "resolveLoop c refs exts =
     List.find (\<lambda>p. p \<in> refs) (concat (map (\<lambda>ext. [c @ ext, c @ ''/index'' @ ext]) exts))"
  by (induction exts) (auto simp: Let_def)

text \<open>
  C6. For the candidate \<open>c\<close> the caller passes (a normalized raw path):
  \<open>resolveFilePath\<close> returns \<open>c\<close> when \<open>c\<close> is a known path; otherwise, when \<open>c\<close> has an
  extension (a dot followed by one or more characters with no slash, at the end) it returns
  nothing; otherwise it returns the first known path among \<open>c.ts\<close>, \<open>c/index.ts\<close>, \<open>c.tsx\<close>,
  \<open>c/index.tsx\<close>, \<open>c.js\<close>, \<open>c/index.js\<close>, \<open>c.jsx\<close>, \<open>c/index.jsx\<close>, \<open>c.mjs\<close>, \<open>c/index.mjs\<close>,
  \<open>c.cjs\<close>, \<open>c/index.cjs\<close>, and nothing when none is known. When it returns nothing the
  caller keeps \<open>c\<close>.
\<close>

theorem resolveFilePath_spec:
  fixes raw :: string and refs :: "string set"
  defines "c \<equiv> normalizePath raw"
  shows "resolveFilePath c refs =
           (if c \<in> refs then Some c
            else if (\<exists>p e. c = p @ ''.'' @ e \<and> e \<noteq> [] \<and> CHR ''/'' \<notin> set e) then None
            else List.find (\<lambda>p. p \<in> refs) (resolveCandidates c)) \<and>
         (resolveFilePath c refs = None \<longrightarrow> resolvedOrRaw c refs = c)"
  unfolding c_def resolveFilePath_def Let_def normalizePath_idem resolveLoop_find
    hasExtension_iff [symmetric] resolveCandidates_def extensions_def resolvedOrRaw_def
  by simp

theorem resolveFilePath_spec_witness:
  "resolveFilePath ''src/a'' {''src/a.js'', ''src/a/index.ts''} = Some ''src/a/index.ts'' \<and>
   resolveFilePath ''src/a.css'' {''src/a.css.ts''} = None \<and>
   resolvedOrRaw ''src/a.css'' {''src/a.css.ts''} = ''src/a.css''"
proof -
  have n1: "normalizePath ''src/a'' = ''src/a''" by (simp add: normalizePath_def)
  have n2: "normalizePath ''src/a.css'' = ''src/a.css''" by (simp add: normalizePath_def)
  have e1: "\<not> hasExtension ''src/a''" by simp
  have e2: "hasExtension ''src/a.css''" by simp
  note w1 = resolveFilePath_spec [of "''src/a''" "{''src/a.js'', ''src/a/index.ts''}",
      unfolded hasExtension_iff [symmetric] n1]
  note w2 = resolveFilePath_spec [of "''src/a.css''" "{''src/a.css.ts''}",
      unfolded hasExtension_iff [symmetric] n2]
  have a: "resolveFilePath ''src/a'' {''src/a.js'', ''src/a/index.ts''} = Some ''src/a/index.ts''"
    using w1 e1 by (simp add: resolveCandidates_def)
  have b: "resolveFilePath ''src/a.css'' {''src/a.css.ts''} = None"
    using w2 e2 by simp
  have c: "resolvedOrRaw ''src/a.css'' {''src/a.css.ts''} = ''src/a.css''"
    using w2 b by simp
  from a b c show ?thesis by simp
qed

section \<open>Dead code\<close>

lemma getFilePathFromNode_chain:
  "getFilePathFromNode node =
     firstCandidate (propsOf node) [''filePath'', ''path'', ''file'', ''name''] (JStr (nodeId node))"
  by (simp add: getFilePathFromNode_def firstCandidate_def js_or_def Let_def)

lemma deadCodeFilePath_chain:
  "deadCodeFilePath node = firstCandidate (propsOf node) [''filePath'', ''file''] (JStr [])"
  by (simp add: deadCodeFilePath_def firstCandidate_def js_or_def Let_def)

lemma deadCodeName_chain:
  "deadCodeName node = firstCandidate (propsOf node) [''name''] (JStr ''anonymous'')"
  by (simp add: deadCodeName_def firstCandidate_def js_or_def Let_def)

lemma deadCodeLoop_Inr:
  "deadCodeLoop mm pats called nodes acc = Inr rs \<Longrightarrow>
     rs = acc @ map toDeadCodeResult (filter (deadCodeKeeps mm pats called) nodes)"
proof (induction nodes arbitrary: acc)
  case Nil
  then show ?case by simp
next
  case (Cons n nodes)
  have skip: "rs = acc @ map toDeadCodeResult (filter (deadCodeKeeps mm pats called) (n # nodes))"
    if k: "\<not> deadCodeKeeps mm pats called n"
      and step: "deadCodeLoop mm pats called nodes acc = Inr rs"
    using Cons.IH [OF step] k by simp
  show ?case
  proof (cases "nodeId n \<in> called")
    case True
    then have "\<not> deadCodeKeeps mm pats called n" by (simp add: deadCodeKeeps_def)
    moreover from Cons.prems True have "deadCodeLoop mm pats called nodes acc = Inr rs" by simp
    ultimately show ?thesis by (rule skip)
  next
    case False
    from Cons.prems False obtain fp where fp: "deadCodeFilePath n = JStr fp"
      by (cases "deadCodeFilePath n") auto
    show ?thesis
    proof (cases "shouldIgnoreFile mm fp pats \<or> isEntryPointFile mm fp")
      case True
      then have "\<not> deadCodeKeeps mm pats called n" using fp by (auto simp: deadCodeKeeps_def)
      moreover from Cons.prems False fp True
      have "deadCodeLoop mm pats called nodes acc = Inr rs" by (auto split: if_splits)
      ultimately show ?thesis by (rule skip)
    next
      case nf: False
      from Cons.prems False fp nf obtain nm where nm: "deadCodeName n = JStr nm"
        by (cases "deadCodeName n") auto
      show ?thesis
      proof (cases "isEntryPointFunction nm \<or> isExportedNode n")
        case True
        then have "\<not> deadCodeKeeps mm pats called n" using nm by (auto simp: deadCodeKeeps_def)
        moreover from Cons.prems False fp nf nm True
        have "deadCodeLoop mm pats called nodes acc = Inr rs" by (auto split: if_splits)
        ultimately show ?thesis by (rule skip)
      next
        case False2: False
        with False fp nf nm have k: "deadCodeKeeps mm pats called n"
          by (simp add: deadCodeKeeps_def)
        from Cons.prems False fp nf nm False2
        have "deadCodeLoop mm pats called nodes (acc @ [toDeadCodeResult n]) = Inr rs"
          by (simp add: toDeadCodeResult_def strOf_def)
        from Cons.IH [OF this] k show ?thesis by simp
      qed
    qed
  qed
qed

lemma deadCodeLoop_Inr_typed:
  "deadCodeLoop mm pats called nodes acc = Inr rs \<Longrightarrow> n \<in> set nodes \<Longrightarrow>
     deadCodeKeeps mm pats called n \<Longrightarrow>
     (\<exists>fp. deadCodeFilePath n = JStr fp) \<and> (\<exists>nm. deadCodeName n = JStr nm)"
proof (induction nodes arbitrary: acc)
  case Nil
  then show ?case by simp
next
  case (Cons m nodes)
  show ?case
  proof (cases "n = m")
    case True
    from Cons.prems(3) True have nc: "nodeId m \<notin> called" by (simp add: deadCodeKeeps_def)
    from Cons.prems(1) nc obtain fp where fp: "deadCodeFilePath m = JStr fp"
      by (cases "deadCodeFilePath m") auto
    from Cons.prems(3) True fp have nf: "\<not> shouldIgnoreFile mm fp pats" "\<not> isEntryPointFile mm fp"
      by (simp_all add: deadCodeKeeps_def)
    from Cons.prems(1) nc fp nf obtain nm where "deadCodeName m = JStr nm"
      by (cases "deadCodeName m") auto
    with fp True show ?thesis by simp
  next
    case False
    with Cons.prems(2) have mem: "n \<in> set nodes" by simp
    from Cons.prems(1) obtain acc' where "deadCodeLoop mm pats called nodes acc' = Inr rs"
      by (auto split: if_splits jsval.splits)
    from Cons.IH [OF this mem Cons.prems(3)] show ?thesis .
  qed
qed

lemma deadCodeLoop_total:
  "(\<And>n. n \<in> set nodes \<Longrightarrow> 
      (\<exists>fp. deadCodeFilePath n = JStr fp) \<and> (\<exists>nm. deadCodeName n = JStr nm)) \<Longrightarrow>
   \<exists>rs. deadCodeLoop mm pats called nodes acc = Inr rs"
proof (induction nodes arbitrary: acc)
  case Nil
  then show ?case by simp
next
  case (Cons m nodes)
  from Cons.prems [of m] obtain fp nm where t: "deadCodeFilePath m = JStr fp" "deadCodeName m = JStr nm"
    by auto
  have "\<And>acc'. \<exists>rs. deadCodeLoop mm pats called nodes acc' = Inr rs"
    using Cons.IH Cons.prems by simp
  with t show ?case by simp
qed

lemma lower_names:
  "map toLowerCase ENTRY_POINT_FUNCTION_NAMES =
     [''main'', ''run'', ''start'', ''init'', ''setup'', ''bootstrap'', ''default'', ''handler'',
      ''get'', ''post'', ''put'', ''delete'', ''patch'']"
  by code_simp

lemma isEntryPointFunction_iff:
  "isEntryPointFunction nm \<longleftrightarrow>
     toLowerCase nm \<in> {''main'', ''run'', ''start'', ''init'', ''setup'', ''bootstrap'', ''default'',
                        ''handler'', ''get'', ''post'', ''put'', ''delete'', ''patch''}"
proof -
  have "isEntryPointFunction nm \<longleftrightarrow> toLowerCase nm \<in> set (map toLowerCase ENTRY_POINT_FUNCTION_NAMES)"
    by (auto simp: isEntryPointFunction_def Let_def list_ex_iff)
  then show ?thesis unfolding lower_names by simp
qed

lemma calledFunctionIds_iff:
  "i \<in> calledFunctionIds rels \<longleftrightarrow>
     (\<exists>rel \<in> set rels. relType rel = Some ''calls'' \<and> endNode rel = i)"
  by (auto simp: calledFunctionIds_def)

lemma shouldIgnoreFile_iff:
  "shouldIgnoreFile mm fp pats \<longleftrightarrow> (\<exists>pattern \<in> set (DEFAULT_EXCLUDE_PATTERNS @ pats). mm fp pattern)"
  by (simp add: shouldIgnoreFile_def list_ex_iff)

lemma isEntryPointFile_iff:
  "isEntryPointFile mm fp \<longleftrightarrow>
     (\<exists>pattern \<in> {''**/index.ts'', ''**/index.js'', ''**/main.ts'', ''**/main.js'',
                    ''**/app.ts'', ''**/app.js'', ''**/*.test.*'', ''**/*.spec.*'',
                    ''**/__tests__/**''}. mm fp pattern)"
  by (simp add: isEntryPointFile_def ENTRY_POINT_PATTERNS_def)

lemma deadCodeKeeps_reported:
  "deadCodeKeeps mm pats (calledFunctionIds rels) n = reportedAsDead mm rels pats n"
  unfolding deadCodeKeeps_def reportedAsDead_def calledFunctionIds_iff shouldIgnoreFile_iff
    isEntryPointFile_iff isEntryPointFunction_iff isExportedNode_def Let_def strOf_def [symmetric]
    de_Morgan_disj
  by (rule refl)

lemma findDeadCode_Inr:
  "findDeadCode mm nodes rels pats = Inr rs \<Longrightarrow>
     rs = map toDeadCodeResult (filter (\<lambda>n. isFunctionNode n \<and> reportedAsDead mm rels pats n) nodes)"
  unfolding findDeadCode_def
  by (drule deadCodeLoop_Inr) (simp add: deadCodeKeeps_reported conj_commute)

lemma toDeadCodeResult_inj_on_ids:
  "toDeadCodeResult n = toDeadCodeResult n' \<Longrightarrow> nodeId n = nodeId n'"
  by (simp add: toDeadCodeResult_def)

text \<open>
  C3, as the program has it. Whenever \<open>findDeadCode\<close> returns, its result lists, in the
  order of \<open>nodes\<close>, exactly the Function-labelled nodes that meet the five conditions of
  \<open>reportedAsDead\<close>: (a) no relationship whose type is exactly \<open>calls\<close> ends at the node;
  (b) the file path (\<open>filePath\<close>, else \<open>file\<close>, else the empty string) is not ignored;
  (c) the file path matches none of \<open>**/index.ts\<close>, \<open>**/index.js\<close>, \<open>**/main.ts\<close>,
  \<open>**/main.js\<close>, \<open>**/app.ts\<close>, \<open>**/app.js\<close>, \<open>**/*.test.*\<close>, \<open>**/*.spec.*\<close>,
  \<open>**/__tests__/**\<close>; (d) the lower-cased name (\<open>anonymous\<close> when absent) is none of the
  thirteen lower-cased entry-point names; (e) neither \<open>exported\<close> nor \<open>isExported\<close> is
  \<open>true\<close>. With unique node ids, a Function node is in the result if and only if it meets
  the five conditions.
\<close>

theorem findDeadCode_spec:
  assumes ret: "findDeadCode mm nodes rels pats = Inr rs"
  shows "rs = map toDeadCodeResult
                (filter (\<lambda>n. isFunctionNode n \<and> reportedAsDead mm rels pats n) nodes) \<and>
         (distinct (map nodeId nodes) \<longrightarrow>
            (\<forall>n \<in> set nodes. isFunctionNode n \<longrightarrow>
               (toDeadCodeResult n \<in> set rs \<longleftrightarrow> reportedAsDead mm rels pats n)))"
proof -
  have rs: "rs = map toDeadCodeResult
                (filter (\<lambda>n. isFunctionNode n \<and> reportedAsDead mm rels pats n) nodes)"
    using ret by (rule findDeadCode_Inr)
  have "toDeadCodeResult n \<in> set rs \<longleftrightarrow> reportedAsDead mm rels pats n"
    if d: "distinct (map nodeId nodes)" and n: "n \<in> set nodes" and f: "isFunctionNode n" for n
  proof
    assume "toDeadCodeResult n \<in> set rs"
    then obtain n' where n': "n' \<in> set nodes" "reportedAsDead mm rels pats n'"
      "toDeadCodeResult n = toDeadCodeResult n'"
      unfolding rs by auto
    from n'(3) have "nodeId n = nodeId n'" by (rule toDeadCodeResult_inj_on_ids)
    with d n n'(1) have "n = n'" by (meson distinct_map inj_onD)
    with n'(2) show "reportedAsDead mm rels pats n" by simp
  next
    assume "reportedAsDead mm rels pats n"
    with n f show "toDeadCodeResult n \<in> set rs" unfolding rs by auto
  qed
  with rs show ?thesis by blast
qed

theorem findDeadCode_spec_witness:
  "findDeadCode globMatch
     [functionNode ''f'' [''filePath'' \<mapsto> JStr ''src/util.ts'', ''name'' \<mapsto> JStr ''helper''],
      functionNode ''g'' [''filePath'' \<mapsto> JStr ''src/util.ts'', ''name'' \<mapsto> JStr ''other'',
                          ''isExported'' \<mapsto> JBool True],
      functionNode ''h'' [''filePath'' \<mapsto> JStr ''src/util.ts'', ''name'' \<mapsto> JStr ''used'']]
     [edge ''calls'' ''f'' ''h'', edge ''Calls'' ''h'' ''f''] []
   = Inr [\<lparr>id_d = ''f'', name = ''helper'', filePath = ''src/util.ts'',
            startLine = JUndefined, endLine = JUndefined\<rparr>] \<and>
   reportedAsDead globMatch [edge ''calls'' ''f'' ''h'', edge ''Calls'' ''h'' ''f''] []
     (functionNode ''f'' [''filePath'' \<mapsto> JStr ''src/util.ts'', ''name'' \<mapsto> JStr ''helper'']) \<and>
   \<not> reportedAsDead globMatch [edge ''calls'' ''f'' ''h'', edge ''Calls'' ''h'' ''f''] []
     (functionNode ''g'' [''filePath'' \<mapsto> JStr ''src/util.ts'', ''name'' \<mapsto> JStr ''other'',
                          ''isExported'' \<mapsto> JBool True])"
  (is "?ret \<and> ?f \<and> \<not> ?g")
proof -
  let ?nf = "functionNode ''f'' [''filePath'' \<mapsto> JStr ''src/util.ts'', ''name'' \<mapsto> JStr ''helper'']"
  let ?ng = "functionNode ''g'' [''filePath'' \<mapsto> JStr ''src/util.ts'', ''name'' \<mapsto> JStr ''other'',
                          ''isExported'' \<mapsto> JBool True]"
  let ?nh = "functionNode ''h'' [''filePath'' \<mapsto> JStr ''src/util.ts'', ''name'' \<mapsto> JStr ''used'']"
  let ?r = "\<lparr>id_d = ''f'', name = ''helper'', filePath = ''src/util.ts'',
            startLine = JUndefined, endLine = JUndefined\<rparr>"
  have ret: ?ret by code_simp
  have d: "distinct (map nodeId [?nf, ?ng, ?nh])" by (simp add: functionNode_def)
  have fn: "isFunctionNode ?nf" "isFunctionNode ?ng" by (simp_all add: functionNode_def isFunctionNode_def)
  have rf: "toDeadCodeResult ?nf \<in> set [?r]" by code_simp
  have rg: "toDeadCodeResult ?ng \<notin> set [?r]" by code_simp
  note th = findDeadCode_spec [OF ret, THEN conjunct2, rule_format, OF d]
  have mf: "?nf \<in> set [?nf, ?ng, ?nh]" and mg: "?ng \<in> set [?nf, ?ng, ?nh]" by simp_all
  from th [OF mf fn(1)] rf have f: "?f" by blast
  from th [OF mg fn(2)] rg have g: "\<not> ?g" by blast
  from ret f g show ?thesis by blast
qed

text \<open>
  C3 as the specification words it fails on condition (c): a Function node in
  \<open>src/index.tsx\<close>, a file that matches \<open>index.*\<close>, is reported, since the program's list
  has \<open>index.ts\<close> and \<open>index.js\<close> only.
\<close>

theorem findDeadCode_index_counterexample:
  "findDeadCode globMatch
     [functionNode ''f'' [''filePath'' \<mapsto> JStr ''src/index.tsx'', ''name'' \<mapsto> JStr ''helper'']] [] []
   = Inr [\<lparr>id_d = ''f'', name = ''helper'', filePath = ''src/index.tsx'',
            startLine = JUndefined, endLine = JUndefined\<rparr>] \<and>
   globMatch ''src/index.tsx'' ''**/index.*''"
  by code_simp

lemma findDeadCode_result_node:
  assumes ret: "findDeadCode mm nodes rels pats = Inr rs" and r: "r \<in> set rs"
  shows "\<exists>n \<in> set nodes. isFunctionNode n \<and> r = toDeadCodeResult n \<and>
           deadCodeFilePath n = JStr (filePath r) \<and> deadCodeName n = JStr (name r)"
proof -
  let ?called = "calledFunctionIds rels"
  let ?fs = "filter isFunctionNode nodes"
  from ret have loop: "deadCodeLoop mm pats ?called ?fs [] = Inr rs"
    by (simp add: findDeadCode_def)
  from deadCodeLoop_Inr [OF loop] r obtain n where
    n: "n \<in> set ?fs" "deadCodeKeeps mm pats ?called n" "r = toDeadCodeResult n"
    by auto
  from deadCodeLoop_Inr_typed [OF loop n(1) n(2)] obtain fp nm where
    t: "deadCodeFilePath n = JStr fp" "deadCodeName n = JStr nm" by blast
  with n(3) have "filePath r = fp" "name r = nm" by (simp_all add: toDeadCodeResult_def strOf_def)
  with t n show ?thesis by auto
qed

text \<open>
  C7, as the program has it. In the cycle analysis the path of a node is the first truthy
  value among its properties \<open>filePath\<close>, \<open>path\<close>, \<open>file\<close>, \<open>name\<close>, and the node id when there
  is none. In the dead-code analysis the \<open>filePath\<close> of a result is the first truthy value
  among \<open>filePath\<close> and \<open>file\<close> of its node, and the empty string when there is none:
  \<open>path\<close>, \<open>name\<close> and the id are not consulted.
\<close>

theorem effective_path_chains:
  "getFilePathFromNode node =
     firstCandidate (propsOf node) [''filePath'', ''path'', ''file'', ''name''] (JStr (nodeId node)) \<and>
   (findDeadCode mm nodes rels pats = Inr rs \<longrightarrow>
      (\<forall>r \<in> set rs. \<exists>n \<in> set nodes. id_d r = nodeId n \<and>
          JStr (filePath r) = firstCandidate (propsOf n) [''filePath'', ''file''] (JStr [])))"
proof (intro conjI impI ballI)
  show "getFilePathFromNode node =
     firstCandidate (propsOf node) [''filePath'', ''path'', ''file'', ''name''] (JStr (nodeId node))"
    by (rule getFilePathFromNode_chain)
next
  fix r
  assume "findDeadCode mm nodes rels pats = Inr rs" "r \<in> set rs"
  then obtain n where n: "n \<in> set nodes" "r = toDeadCodeResult n" "deadCodeFilePath n = JStr (filePath r)"
    using findDeadCode_result_node by blast
  from n(2) have "id_d r = nodeId n" by (simp add: toDeadCodeResult_def)
  with n(1) n(3) show "\<exists>n \<in> set nodes. id_d r = nodeId n \<and>
          JStr (filePath r) = firstCandidate (propsOf n) [''filePath'', ''file''] (JStr [])"
    unfolding deadCodeFilePath_chain [symmetric] by auto
qed

theorem effective_path_chains_witness:
  "getFilePathFromNode
     (functionNode ''f'' [''filePath'' \<mapsto> JStr [], ''file'' \<mapsto> JStr ''src/y.ts'', ''name'' \<mapsto> JStr ''helper''])
     = JStr ''src/y.ts'' \<and>
   getFilePathFromNode \<lparr>nodeId = ''n1'', nodeLabels = None, nodeProperties = None\<rparr> = JStr ''n1'' \<and>
   findDeadCode globMatch
     [functionNode ''f'' [''filePath'' \<mapsto> JStr [], ''file'' \<mapsto> JStr ''src/y.ts'', ''name'' \<mapsto> JStr ''helper'']]
     [] []
   = Inr [\<lparr>id_d = ''f'', name = ''helper'', filePath = ''src/y.ts'',
            startLine = JUndefined, endLine = JUndefined\<rparr>]"
  (is "?a \<and> ?b \<and> ?ret")
proof -
  let ?n = "functionNode ''f'' [''filePath'' \<mapsto> JStr [], ''file'' \<mapsto> JStr ''src/y.ts'', ''name'' \<mapsto> JStr ''helper'']"
  let ?r = "\<lparr>id_d = ''f'', name = ''helper'', filePath = ''src/y.ts'',
            startLine = JUndefined, endLine = JUndefined\<rparr>"
  have ret: ?ret by code_simp
  note th = effective_path_chains [of ?n globMatch "[?n]" "[]" "[]" "[?r]"]
  have a: ?a using th by (simp add: firstCandidate_def functionNode_def propsOf_def getProp_def)
  have b: ?b
    using effective_path_chains [of "\<lparr>nodeId = ''n1'', nodeLabels = None, nodeProperties = None\<rparr>"]
    by (simp add: firstCandidate_def propsOf_def getProp_def)
  from th ret have "JStr (filePath ?r) = firstCandidate (propsOf ?n) [''filePath'', ''file''] (JStr [])"
    by simp
  with a b ret show ?thesis by blast
qed

text \<open>
  C7 as the specification words it fails for the dead-code analysis: a Function node whose
  only path property is \<open>path\<close> has the effective path \<open>src/x.ts\<close>, and its result carries
  the empty string.
\<close>

theorem deadCode_filePath_counterexample:
  "getFilePathFromNode (functionNode ''f'' [''path'' \<mapsto> JStr ''src/x.ts'', ''name'' \<mapsto> JStr ''helper''])
     = JStr ''src/x.ts'' \<and>
   findDeadCode globMatch
     [functionNode ''f'' [''path'' \<mapsto> JStr ''src/x.ts'', ''name'' \<mapsto> JStr ''helper'']] [] []
   = Inr [\<lparr>id_d = ''f'', name = ''helper'', filePath = [],
            startLine = JUndefined, endLine = JUndefined\<rparr>]"
  by code_simp

section \<open>The comment\<close>

lemma closedPath_eq: "closedPath c = join '' -> '' (c @ [if c = [] then [] else hd c])"
  by (cases c) (simp_all add: closedPath_def)

lemma formatRow_nth:
  assumes "i < length cs"
  shows "map formatRow (enumerate 0 cs) ! i =
           ''| '' @ showNat (i + 1) @ '' | '' @ closedPath (cycle (cs ! i)) @ '' |''"
  using assms by (simp add: nth_enumerate_eq formatRow_def)

lemma formatPrComment_empty:
  "\<exists>p q. formatPrComment [] = p @ ''No circular dependencies found'' @ q"
  unfolding includesStr_iff [symmetric] by code_simp

text \<open>
  C9. On the empty list the comment contains \<open>No circular dependencies found\<close>. On a list of
  \<open>N > 0\<close> cycles the comment is the heading with the count, then \<open>min N 50\<close> rows joined by
  newlines, row \<open>i\<close> (from 0) being \<open>| i+1 | c[0] -> ... -> c[0] |\<close> for the \<open>i\<close>-th cycle \<open>c\<close>,
  then the note \<open>_...and N-50 more. ..._\<close> exactly when \<open>N > 50\<close>, then the footer.
\<close>

theorem formatPrComment_spec:
  "(\<exists>p q. formatPrComment [] = p @ ''No circular dependencies found'' @ q) \<and>
   (cycles \<noteq> [] \<longrightarrow>
      (\<exists>rows. length rows = min (length cycles) 50 \<and>
         (\<forall>i < length rows.
            rows ! i = ''| '' @ showNat (i + 1) @ '' | '' @
              join '' -> '' (cycle (cycles ! i) @
                             [if cycle (cycles ! i) = [] then [] else hd (cycle (cycles ! i))]) @
              '' |'') \<and>
         formatPrComment cycles =
           ''## Circular Dependency Hunter'' @ NL @ NL @
           ''Found **'' @ showNat (length cycles) @ ''** circular dependenc'' @
           (if length cycles = 1 then ''y'' else ''ies'') @ '':'' @ NL @ NL @
           ''| # | Cycle |'' @ NL @ ''|---|-------|'' @ NL @
           join NL rows @
           (if length cycles > 50
            then NL @ NL @ ''_...and '' @ showNat (length cycles - 50) @
                 '' more. See action output for full list._''
            else []) @
           NL @ NL @ ''---'' @ NL @
           ''_Powered by [Supermodel](https://supermodeltools.com) graph analysis_''))"
proof (intro conjI impI)
  show "\<exists>p q. formatPrComment [] = p @ ''No circular dependencies found'' @ q"
    by (rule formatPrComment_empty)
next
  assume ne: "cycles \<noteq> []"
  let ?rows = "map formatRow (enumerate 0 (take 50 cycles))"
  have len: "length ?rows = min (length cycles) 50" by simp
  have row: "\<forall>i < length ?rows.
            ?rows ! i = ''| '' @ showNat (i + 1) @ '' | '' @
              join '' -> '' (cycle (cycles ! i) @
                             [if cycle (cycles ! i) = [] then [] else hd (cycle (cycles ! i))]) @
              '' |''"
  proof (intro allI impI)
    fix i assume "i < length ?rows"
    then have i: "i < length (take 50 cycles)" by simp
    then have "take 50 cycles ! i = cycles ! i" by simp
    with formatRow_nth [OF i] show "?rows ! i = ''| '' @ showNat (i + 1) @ '' | '' @
              join '' -> '' (cycle (cycles ! i) @
                             [if cycle (cycles ! i) = [] then [] else hd (cycle (cycles ! i))]) @
              '' |''"
      by (simp only: closedPath_eq)
  qed
  have eq: "formatPrComment cycles =
           ''## Circular Dependency Hunter'' @ NL @ NL @
           ''Found **'' @ showNat (length cycles) @ ''** circular dependenc'' @
           (if length cycles = 1 then ''y'' else ''ies'') @ '':'' @ NL @ NL @
           ''| # | Cycle |'' @ NL @ ''|---|-------|'' @ NL @
           join NL ?rows @
           (if length cycles > 50
            then NL @ NL @ ''_...and '' @ showNat (length cycles - 50) @
                 '' more. See action output for full list._''
            else []) @
           NL @ NL @ ''---'' @ NL @
           ''_Powered by [Supermodel](https://supermodeltools.com) graph analysis_''"
    using ne by (simp add: formatPrComment_def Let_def)
  from len row eq show "\<exists>rows. length rows = min (length cycles) 50 \<and>
         (\<forall>i < length rows.
            rows ! i = ''| '' @ showNat (i + 1) @ '' | '' @
              join '' -> '' (cycle (cycles ! i) @
                             [if cycle (cycles ! i) = [] then [] else hd (cycle (cycles ! i))]) @
              '' |'') \<and>
         formatPrComment cycles =
           ''## Circular Dependency Hunter'' @ NL @ NL @
           ''Found **'' @ showNat (length cycles) @ ''** circular dependenc'' @
           (if length cycles = 1 then ''y'' else ''ies'') @ '':'' @ NL @ NL @
           ''| # | Cycle |'' @ NL @ ''|---|-------|'' @ NL @
           join NL rows @
           (if length cycles > 50
            then NL @ NL @ ''_...and '' @ showNat (length cycles - 50) @
                 '' more. See action output for full list._''
            else []) @
           NL @ NL @ ''---'' @ NL @
           ''_Powered by [Supermodel](https://supermodeltools.com) graph analysis_''"
    by blast
qed

theorem formatPrComment_spec_witness:
  "formatPrComment
     [\<lparr>id_c = ''c1'', cycle = [''src/a.ts'', ''src/b.ts''], length_c = 2\<rparr>,
      \<lparr>id_c = ''c2'', cycle = [''src/c.ts'', ''src/d.ts'', ''src/e.ts''], length_c = 3\<rparr>] =
   ''## Circular Dependency Hunter'' @ NL @ NL @
   ''Found **2** circular dependencies:'' @ NL @ NL @
   ''| # | Cycle |'' @ NL @ ''|---|-------|'' @ NL @
   ''| 1 | src/a.ts -> src/b.ts -> src/a.ts |'' @ NL @
   ''| 2 | src/c.ts -> src/d.ts -> src/e.ts -> src/c.ts |'' @
   NL @ NL @ ''---'' @ NL @
   ''_Powered by [Supermodel](https://supermodeltools.com) graph analysis_''"
proof -
  let ?cs = "[\<lparr>id_c = ''c1'', cycle = [''src/a.ts'', ''src/b.ts''], length_c = 2\<rparr>,
      \<lparr>id_c = ''c2'', cycle = [''src/c.ts'', ''src/d.ts'', ''src/e.ts''], length_c = 3\<rparr>]"
  have ne: "?cs \<noteq> []" by simp
  have s1: "showNat (Suc 0) = ''1''" and s2: "showNat 2 = ''2''" and s2': "showNat (Suc (Suc 0)) = ''2''"
    by code_simp+
  note ex = formatPrComment_spec [of ?cs, THEN conjunct2, rule_format, OF ne]
  from ex obtain rows where len: "length rows = min (length ?cs) 50"
    and row: "\<forall>i < length rows.
            rows ! i = ''| '' @ showNat (i + 1) @ '' | '' @
              join '' -> '' (cycle (?cs ! i) @
                             [if cycle (?cs ! i) = [] then [] else hd (cycle (?cs ! i))]) @
              '' |''"
    and eq: "formatPrComment ?cs =
           ''## Circular Dependency Hunter'' @ NL @ NL @
           ''Found **'' @ showNat (length ?cs) @ ''** circular dependenc'' @
           (if length ?cs = 1 then ''y'' else ''ies'') @ '':'' @ NL @ NL @
           ''| # | Cycle |'' @ NL @ ''|---|-------|'' @ NL @
           join NL rows @
           (if length ?cs > 50
            then NL @ NL @ ''_...and '' @ showNat (length ?cs - 50) @
                 '' more. See action output for full list._''
            else []) @
           NL @ NL @ ''---'' @ NL @
           ''_Powered by [Supermodel](https://supermodeltools.com) graph analysis_''"
    by (elim exE conjE)
  from len have l2: "length rows = 2" by simp
  from row l2 have r0: "rows ! 0 = ''| 1 | src/a.ts -> src/b.ts -> src/a.ts |''"
    by (simp add: s1)
  from row l2 have r1: "rows ! 1 = ''| 2 | src/c.ts -> src/d.ts -> src/e.ts -> src/c.ts |''"
    by (simp add: s2 s2')
  from l2 obtain a b where ab: "rows = [a, b]"
    by (auto simp: length_Suc_conv eval_nat_numeral)
  with r0 r1 have rows: "rows = [''| 1 | src/a.ts -> src/b.ts -> src/a.ts |'',
      ''| 2 | src/c.ts -> src/d.ts -> src/e.ts -> src/c.ts |'']" by simp
  show ?thesis unfolding eq rows by (simp add: s2 s2')
qed

section \<open>Canonical cycles\<close>

lemma minIndexLoop_min:
  "m < i \<Longrightarrow> i \<le> length vs \<Longrightarrow> \<forall>j<i. vs ! m \<le> vs ! j \<Longrightarrow>
     minIndexLoop vs i m < length vs \<and> (\<forall>j<length vs. vs ! minIndexLoop vs i m \<le> vs ! j)"
proof (induction vs i m rule: minIndexLoop.induct)
  case (1 vs i m)
  show ?case
  proof (cases "i < length vs")
    case False
    with "1.prems" have "i = length vs" by simp
    with "1.prems" False show ?thesis by (subst (1 2) minIndexLoop.simps) simp
  next
    case True
    let ?m' = "if vs ! i < vs ! m then i else m"
    have a: "?m' < i + 1" using "1.prems"(1) by simp
    have b: "i + 1 \<le> length vs" using True by simp
    have c: "\<forall>j<i + 1. vs ! ?m' \<le> vs ! j"
    proof (intro allI impI)
      fix j assume "j < i + 1"
      then consider "j < i" | "j = i" by linarith
      then show "vs ! ?m' \<le> vs ! j"
      proof cases
        case 1
        with "1.prems"(3) have "vs ! m \<le> vs ! j" by simp
        then show ?thesis by auto
      next
        case 2
        then show ?thesis by auto
      qed
    qed
    from "1.IH" [OF True a b c] True show ?thesis
      by (subst (1 2) minIndexLoop.simps) simp
  qed
qed

lemma minIndexLoop_start:
  assumes "vs \<noteq> []"
  shows "minIndexLoop vs 1 0 < length vs \<and> (\<forall>j<length vs. vs ! minIndexLoop vs 1 0 \<le> vs ! j)"
proof -
  from assms have "(0::nat) < 1" "1 \<le> length vs" "\<forall>j<1. vs ! 0 \<le> vs ! j"
    by (simp_all add: Suc_leI)
  then show ?thesis by (rule minIndexLoop_min)
qed

lemma rotateToSmallest_rotate:
  "rotateToSmallest vs = rotate (minIndexLoop vs 1 0) vs"
proof (cases "vs = []")
  case True
  then show ?thesis by (simp add: rotateToSmallest_def)
next
  case False
  then have "minIndexLoop vs 1 0 < length vs" using minIndexLoop_start by blast
  with False show ?thesis
    by (simp add: rotateToSmallest_def Let_def rotate_drop_take)
qed

lemma hd_rotateToSmallest_le:
  assumes "vs \<noteq> []" "x \<in> set vs"
  shows "hd (rotateToSmallest vs) \<le> x"
proof -
  from assms(1) have r: "minIndexLoop vs 1 0 < length vs"
    and m: "\<forall>j<length vs. vs ! minIndexLoop vs 1 0 \<le> vs ! j"
    using minIndexLoop_start by blast+
  from assms(1) r have "hd (rotateToSmallest vs) = vs ! minIndexLoop vs 1 0"
    by (simp add: rotateToSmallest_rotate hd_rotate_conv_nth)
  moreover from assms(2) obtain j where "j < length vs" "vs ! j = x"
    by (auto simp: in_set_conv_nth)
  ultimately show ?thesis using m by auto
qed

lemma rotations_same_hd:
  assumes "distinct xs" "xs \<noteq> []" "hd (rotate a xs) = hd (rotate b xs)"
  shows "rotate a xs = rotate b xs"
proof -
  from assms(2) have "length xs > 0" by simp
  then have la: "a mod length xs < length xs" and lb: "b mod length xs < length xs" by simp_all
  from assms(2,3) have "xs ! (a mod length xs) = xs ! (b mod length xs)"
    by (simp add: hd_rotate_conv_nth)
  with assms(1) la lb have "a mod length xs = b mod length xs"
    by (simp add: nth_eq_iff_index_eq)
  then show ?thesis by (metis rotate_conv_mod)
qed

lemma rotateToSmallest_of_rotation:
  assumes "distinct xs"
  shows "rotateToSmallest (rotate n xs) = rotateToSmallest xs"
proof (cases "xs = []")
  case True
  then show ?thesis by simp
next
  case False
  let ?ys = "rotate n xs"
  let ?a = "minIndexLoop ?ys 1 0"
  let ?b = "minIndexLoop xs 1 0"
  have ys: "?ys \<noteq> []" using False by simp
  have A: "rotateToSmallest ?ys = rotate (?a + n) xs"
    by (simp add: rotateToSmallest_rotate rotate_rotate)
  have B: "rotateToSmallest xs = rotate ?b xs" by (rule rotateToSmallest_rotate)
  have memA: "hd (rotateToSmallest ?ys) \<in> set xs"
    using False by (metis A hd_in_set rotate_is_Nil_conv set_rotate)
  have memB: "hd (rotateToSmallest xs) \<in> set xs"
    using False by (metis B hd_in_set rotate_is_Nil_conv set_rotate)
  have "hd (rotateToSmallest ?ys) \<le> hd (rotateToSmallest xs)"
    using hd_rotateToSmallest_le [OF ys] memB by simp
  moreover have "hd (rotateToSmallest xs) \<le> hd (rotateToSmallest ?ys)"
    using hd_rotateToSmallest_le [OF False memA] .
  ultimately have "hd (rotate (?a + n) xs) = hd (rotate ?b xs)"
    unfolding A B by simp
  from rotations_same_hd [OF assms False this] show ?thesis unfolding A B .
qed

lemma rev_rotate1: "rev (rotate1 ys) = rotate (length ys - 1) (rev ys)"
proof (cases ys)
  case Nil
  then show ?thesis by simp
next
  case (Cons y ys')
  have "rotate (length (rev ys')) (rev ys' @ [y]) = [y] @ rev ys'" by (rule rotate_append)
  with Cons show ?thesis by simp
qed

lemma rev_rotate_ex: "\<exists>k. rev (rotate n xs) = rotate k (rev xs)"
proof (induction n)
  case 0
  have "rev (rotate 0 xs) = rotate 0 (rev xs)" by simp
  then show ?case by blast
next
  case (Suc n)
  then obtain k where k: "rev (rotate n xs) = rotate k (rev xs)" by blast
  have "rev (rotate (Suc n) xs) = rotate (length xs - 1) (rev (rotate n xs))"
    using rev_rotate1 [of "rotate n xs"] by simp
  also have "\<dots> = rotate (length xs - 1 + k) (rev xs)" by (simp add: k rotate_rotate)
  finally show ?case by blast
qed

lemma rotateToSmallest_rev_rotation:
  assumes "distinct xs"
  shows "rotateToSmallest (rev (rotate n xs)) = rotateToSmallest (rev xs)"
proof -
  obtain k where "rev (rotate n xs) = rotate k (rev xs)" using rev_rotate_ex by blast
  moreover have "distinct (rev xs)" using assms by simp
  ultimately show ?thesis by (simp add: rotateToSmallest_of_rotation)
qed

lemma distinct_rotateToSmallest: "distinct (rotateToSmallest xs) = distinct xs"
  by (simp add: rotateToSmallest_rotate)

lemma length_rotateToSmallest: "length (rotateToSmallest xs) = length xs"
  by (simp add: rotateToSmallest_rotate)

lemma set_rotateToSmallest: "set (rotateToSmallest xs) = set xs"
  by (simp add: rotateToSmallest_rotate)

lemma trimmed_distinct:
  assumes "distinct xs"
  shows "(if 1 < length xs \<and> xs ! 0 = xs ! (length xs - 1) then butlast xs else xs) = xs"
proof -
  have "\<not> (1 < length xs \<and> xs ! 0 = xs ! (length xs - 1))"
  proof
    assume a: "1 < length xs \<and> xs ! 0 = xs ! (length xs - 1)"
    then have "0 < length xs" "length xs - 1 < length xs" "0 \<noteq> length xs - 1" by auto
    with assms a show False by (simp add: nth_eq_iff_index_eq)
  qed
  then show ?thesis by (rule if_not_P)
qed

lemma normalizeCycle_distinct:
  assumes "distinct xs"
  shows "normalizeCycle xs =
           (if join ''->'' (rotateToSmallest xs) \<le> join ''->'' (rotateToSmallest (rev xs))
            then rotateToSmallest xs else rotateToSmallest (rev xs))"
  unfolding normalizeCycle_def trimmed_distinct [OF assms] Let_def ..

lemma trimmed_closed:
  assumes "xs \<noteq> []"
  shows "(if 1 < length (xs @ [hd xs]) \<and>
             (xs @ [hd xs]) ! 0 = (xs @ [hd xs]) ! (length (xs @ [hd xs]) - 1)
          then butlast (xs @ [hd xs]) else xs @ [hd xs]) = xs"
proof -
  from assms have "(xs @ [hd xs]) ! 0 = hd xs" by (simp add: nth_append hd_conv_nth)
  with assms have "1 < length (xs @ [hd xs]) \<and>
      (xs @ [hd xs]) ! 0 = (xs @ [hd xs]) ! (length (xs @ [hd xs]) - 1)"
    by simp
  then show ?thesis by (simp only: if_P butlast_snoc)
qed

lemma normalizeCycle_closed:
  assumes "distinct xs" "xs \<noteq> []"
  shows "normalizeCycle (xs @ [hd xs]) = normalizeCycle xs"
  unfolding normalizeCycle_def trimmed_closed [OF assms(2)] trimmed_distinct [OF assms(1)] ..

lemma normalizeCycle_rotate:
  assumes "distinct xs"
  shows "normalizeCycle (rotate n xs) = normalizeCycle xs"
  using assms
  by (simp add: normalizeCycle_distinct rotateToSmallest_of_rotation rotateToSmallest_rev_rotation)

lemma normalizeCycle_rev_key:
  assumes "distinct xs"
  shows "join ''->'' (normalizeCycle (rev xs)) = join ''->'' (normalizeCycle xs)"
  using assms by (auto simp: normalizeCycle_distinct)

lemma normalizeCycle_rev:
  assumes "distinct xs"
    and "join ''->'' (rotateToSmallest xs) = join ''->'' (rotateToSmallest (rev xs)) \<Longrightarrow>
         rotateToSmallest xs = rotateToSmallest (rev xs)"
  shows "normalizeCycle (rev xs) = normalizeCycle xs"
  using assms by (auto simp: normalizeCycle_distinct)

lemma normalizeCycle_cases:
  assumes "distinct xs"
  shows "normalizeCycle xs = rotateToSmallest xs \<or> normalizeCycle xs = rotateToSmallest (rev xs)"
  using assms by (simp add: normalizeCycle_distinct)

lemma distinct_normalizeCycle:
  assumes "distinct xs"
  shows "distinct (normalizeCycle xs) \<and> length (normalizeCycle xs) = length xs \<and>
         set (normalizeCycle xs) = set xs"
  using assms by (simp add: normalizeCycle_distinct distinct_rotateToSmallest
      length_rotateToSmallest set_rotateToSmallest)

lemma normalizeCycle_idem:
  assumes "distinct xs"
  shows "normalizeCycle (normalizeCycle xs) = normalizeCycle xs"
proof -
  let ?F = "rotateToSmallest xs" and ?B = "rotateToSmallest (rev xs)"
  have dr: "distinct (rev xs)" using assms by simp
  have FF: "rotateToSmallest ?F = ?F"
    using rotateToSmallest_of_rotation [OF assms] by (simp add: rotateToSmallest_rotate [of xs])
  have BF: "rotateToSmallest (rev ?F) = ?B"
    using rotateToSmallest_rev_rotation [OF assms] by (simp add: rotateToSmallest_rotate [of xs])
  have BB: "rotateToSmallest ?B = ?B"
    using rotateToSmallest_of_rotation [OF dr] by (simp add: rotateToSmallest_rotate [of "rev xs"])
  have FB: "rotateToSmallest (rev ?B) = ?F"
    using rotateToSmallest_rev_rotation [OF dr] by (simp add: rotateToSmallest_rotate [of "rev xs"])
  have dF: "distinct ?F" and dB: "distinct ?B"
    using assms by (simp_all add: distinct_rotateToSmallest)
  show ?thesis
  proof (cases "join ''->'' ?F \<le> join ''->'' ?B")
    case True
    then have "normalizeCycle xs = ?F" using assms by (simp add: normalizeCycle_distinct)
    moreover have "normalizeCycle ?F = ?F"
      using True by (simp add: normalizeCycle_distinct [OF dF] FF BF)
    ultimately show ?thesis by simp
  next
    case False
    then have "normalizeCycle xs = ?B" using assms by (simp add: normalizeCycle_distinct)
    moreover from False have "join ''->'' ?B \<le> join ''->'' ?F" by (meson linear)
    then have "normalizeCycle ?B = ?B"
      by (simp add: normalizeCycle_distinct [OF dB] BB FB)
    ultimately show ?thesis by simp
  qed
qed

lemma join_inj:
  assumes "length xs = length ys"
    and "\<forall>x \<in> set xs \<union> set ys. \<not> (\<exists>p q. x = p @ ''->'' @ q)"
    and "join ''->'' xs = join ''->'' ys"
  shows "xs = ys"
  using assms
proof (induction xs ys rule: list_induct2)
  case Nil
  then show ?case by simp
next
  case (Cons x xs y ys)
  show ?case
  proof (cases xs)
    case Nil
    with Cons show ?thesis by simp
  next
    case xs: (Cons x' xs')
    with Cons.hyps obtain y' ys' where ys: "ys = y' # ys'" by (cases ys) auto
    let ?r1 = "join ''->'' xs" and ?r2 = "join ''->'' ys"
    from Cons.prems(2) xs ys have eq: "x @ ''->'' @ ?r1 = y @ ''->'' @ ?r2" by simp
    have nx: "\<And>p q. x \<noteq> p @ ''->'' @ q" and ny: "\<And>p q. y \<noteq> p @ ''->'' @ q"
      using Cons.prems(1) by auto
    have xy: "x = y"
    proof -
      from eq obtain us where
        "(x = y @ us \<and> us @ ''->'' @ ?r1 = ''->'' @ ?r2) \<or>
         (x @ us = y \<and> ''->'' @ ?r1 = us @ ''->'' @ ?r2)"
        by (auto simp: append_eq_append_conv2)
      then show ?thesis
      proof
        assume a: "x = y @ us \<and> us @ ''->'' @ ?r1 = ''->'' @ ?r2"
        show ?thesis
        proof (cases us)
          case Nil
          with a show ?thesis by simp
        next
          case (Cons c us')
          show ?thesis
          proof (cases us')
            case Nil
            with Cons a show ?thesis by simp
          next
            case (Cons d us'')
            with \<open>us = c # us'\<close> a have "x = y @ ''->'' @ us''" by simp
            with nx show ?thesis by blast
          qed
        qed
      next
        assume a: "x @ us = y \<and> ''->'' @ ?r1 = us @ ''->'' @ ?r2"
        show ?thesis
        proof (cases us)
          case Nil
          with a show ?thesis by simp
        next
          case (Cons c us')
          show ?thesis
          proof (cases us')
            case Nil
            with Cons a show ?thesis by simp
          next
            case (Cons d us'')
            with \<open>us = c # us'\<close> a have "y = x @ ''->'' @ us''" by auto
            with ny show ?thesis by blast
          qed
        qed
      qed
    qed
    with eq have "?r1 = ?r2" by simp
    moreover from Cons.prems(1) have "\<forall>x \<in> set xs \<union> set ys. \<not> (\<exists>p q. x = p @ ''->'' @ q)" by auto
    ultimately have "xs = ys" using Cons.IH by blast
    with xy show ?thesis by simp
  qed
qed

text \<open>
  C2, as the program has it. For a sequence \<open>xs\<close> of distinct paths: \<open>normalizeCycle\<close> is
  idempotent on \<open>xs\<close>; every rotation of \<open>xs\<close> has the representative of \<open>xs\<close>; the closed form
  \<open>xs @ [hd xs]\<close> has the representative of \<open>xs\<close>; every rotation of the reversal of \<open>xs\<close> has a
  representative with the same joined key as that of \<open>xs\<close>, and the same representative when
  no path contains the separator \<open>->\<close>.
\<close>

theorem normalizeCycle_canonical:
  assumes "distinct xs"
  shows "normalizeCycle (normalizeCycle xs) = normalizeCycle xs \<and>
         normalizeCycle (rotate n xs) = normalizeCycle xs \<and>
         join ''->'' (normalizeCycle (rotate n (rev xs))) = join ''->'' (normalizeCycle xs) \<and>
         ((\<forall>x \<in> set xs. \<not> (\<exists>p q. x = p @ ''->'' @ q)) \<longrightarrow>
            normalizeCycle (rotate n (rev xs)) = normalizeCycle xs) \<and>
         (xs \<noteq> [] \<longrightarrow> normalizeCycle (xs @ [hd xs]) = normalizeCycle xs)"
proof -
  have dr: "distinct (rev xs)" using assms by simp
  have r: "normalizeCycle (rotate n (rev xs)) = normalizeCycle (rev xs)"
    using dr by (rule normalizeCycle_rotate)
  have a: "normalizeCycle (normalizeCycle xs) = normalizeCycle xs"
    using assms by (rule normalizeCycle_idem)
  have b: "normalizeCycle (rotate n xs) = normalizeCycle xs"
    using assms by (rule normalizeCycle_rotate)
  have c: "join ''->'' (normalizeCycle (rotate n (rev xs))) = join ''->'' (normalizeCycle xs)"
    unfolding r using assms by (rule normalizeCycle_rev_key)
  have d: "normalizeCycle (rotate n (rev xs)) = normalizeCycle xs"
    if free: "\<forall>x \<in> set xs. \<not> (\<exists>p q. x = p @ ''->'' @ q)"
  proof -
    have "rotateToSmallest xs = rotateToSmallest (rev xs)"
      if "join ''->'' (rotateToSmallest xs) = join ''->'' (rotateToSmallest (rev xs))"
    proof (rule join_inj [OF _ _ that])
      show "length (rotateToSmallest xs) = length (rotateToSmallest (rev xs))"
        by (simp add: length_rotateToSmallest)
      show "\<forall>x \<in> set (rotateToSmallest xs) \<union> set (rotateToSmallest (rev xs)).
              \<not> (\<exists>p q. x = p @ ''->'' @ q)"
        using free by (simp add: set_rotateToSmallest)
    qed
    with assms show ?thesis unfolding r by (rule normalizeCycle_rev)
  qed
  have e: "normalizeCycle (xs @ [hd xs]) = normalizeCycle xs" if "xs \<noteq> []"
    using assms that by (rule normalizeCycle_closed)
  from a b c d e show ?thesis by blast
qed

theorem normalizeCycle_canonical_witness:
  "normalizeCycle (normalizeCycle [''b.ts'', ''c.ts'', ''a.ts'']) = [''a.ts'', ''b.ts'', ''c.ts''] \<and>
   normalizeCycle [''c.ts'', ''a.ts'', ''b.ts''] = [''a.ts'', ''b.ts'', ''c.ts''] \<and>
   normalizeCycle [''c.ts'', ''b.ts'', ''a.ts''] = [''a.ts'', ''b.ts'', ''c.ts''] \<and>
   normalizeCycle [''b.ts'', ''c.ts'', ''a.ts'', ''b.ts''] = [''a.ts'', ''b.ts'', ''c.ts'']"
proof -
  let ?xs = "[''b.ts'', ''c.ts'', ''a.ts'']"
  have d: "distinct ?xs" by simp
  have f: "\<forall>x \<in> set ?xs. \<not> (\<exists>p q. x = p @ ''->'' @ q)"
    unfolding includesStr_iff [symmetric] by simp
  have v: "normalizeCycle ?xs = [''a.ts'', ''b.ts'', ''c.ts'']" by code_simp
  have r1: "rotate (Suc 0) ?xs = [''c.ts'', ''a.ts'', ''b.ts'']" by simp
  have r2: "rotate (Suc 0) (rev ?xs) = [''c.ts'', ''b.ts'', ''a.ts'']" by simp
  have c: "?xs @ [hd ?xs] = [''b.ts'', ''c.ts'', ''a.ts'', ''b.ts'']" by simp
  from normalizeCycle_canonical [OF d, of "Suc 0"] f
  have "normalizeCycle (normalizeCycle ?xs) = normalizeCycle ?xs"
    and "normalizeCycle (rotate (Suc 0) ?xs) = normalizeCycle ?xs"
    and "normalizeCycle (rotate (Suc 0) (rev ?xs)) = normalizeCycle ?xs"
    and "normalizeCycle (?xs @ [hd ?xs]) = normalizeCycle ?xs"
    by blast+
  then show ?thesis unfolding r1 r2 c v by blast
qed

text \<open>
  C2 as the specification words it fails: the distinct paths \<open>A\<close>, \<open>a\<close>, \<open>a->a\<close> read in the
  two directions get two different representatives (their joined keys are equal); and
  without distinctness \<open>normalizeCycle\<close> is not idempotent.
\<close>

theorem normalizeCycle_direction_counterexample:
  "distinct [''A'', ''a'', ''a->a''] \<and>
   normalizeCycle [''A'', ''a'', ''a->a''] = [''A'', ''a'', ''a->a''] \<and>
   normalizeCycle (rev [''A'', ''a'', ''a->a'']) = [''A'', ''a->a'', ''a''] \<and>
   normalizeCycle [''a'', ''a'', ''a''] = [''a'', ''a''] \<and>
   normalizeCycle (normalizeCycle [''a'', ''a'', ''a'']) = [''a'']"
  by code_simp

section \<open>The search\<close>

lemma indexOfFrom_mem:
  "x \<in> set xs \<Longrightarrow> \<exists>i < length xs. indexOfFrom xs x k = int (k + i) \<and> xs ! i = x"
proof (induction xs arbitrary: k)
  case Nil
  then show ?case by simp
next
  case (Cons y ys)
  show ?case
  proof (cases "y = x")
    case True
    then have "0 < length (y # ys) \<and> indexOfFrom (y # ys) x k = int (k + 0) \<and> (y # ys) ! 0 = x"
      by simp
    then show ?thesis by blast
  next
    case False
    with Cons.prems have "x \<in> set ys" by simp
    from Cons.IH [OF this, of "Suc k"] obtain i where
      i: "i < length ys" "indexOfFrom ys x (Suc k) = int (Suc k + i)" "ys ! i = x" by blast
    with False have "Suc i < length (y # ys) \<and> indexOfFrom (y # ys) x k = int (k + Suc i) \<and>
        (y # ys) ! Suc i = x" by simp
    then show ?thesis by blast
  qed
qed

lemma sliceFrom_indexOf:
  assumes "x \<in> set xs"
  shows "\<exists>i < length xs. sliceFrom xs (indexOf xs x) = drop i xs \<and> xs ! i = x"
proof -
  from indexOfFrom_mem [OF assms, of 0] obtain i where
    i: "i < length xs" "indexOfFrom xs x 0 = int i" "xs ! i = x" by auto
  then have "sliceFrom xs (indexOf xs x) = drop i xs"
    by (simp add: sliceFrom_def indexOf_def)
  with i show ?thesis by blast
qed

lemma back_edge_slice:
  assumes "distinct xs" "x \<in> set xs" "xs \<noteq> []" "x \<noteq> last xs"
  shows "\<exists>ys. sliceFrom xs (indexOf xs x) = ys \<and> distinct ys \<and> 2 \<le> length ys \<and> hd ys = x"
proof -
  from sliceFrom_indexOf [OF assms(2)] obtain i where
    i: "i < length xs" "sliceFrom xs (indexOf xs x) = drop i xs" "xs ! i = x" by blast
  have d: "distinct (drop i xs)" using assms(1) by simp
  have h: "hd (drop i xs) = x" using i by (simp add: hd_drop_conv_nth)
  have "i \<noteq> length xs - 1"
  proof
    assume "i = length xs - 1"
    with i(3) assms(3) have "x = last xs" by (simp add: last_conv_nth)
    with assms(4) show False by simp
  qed
  with i(1) have "2 \<le> length (drop i xs)" by simp
  with i(2) d h show ?thesis by simp
qed

lemma reportBackEdge_frame:
  "stack (reportBackEdge n st) = stack st \<and> visited (reportBackEdge n st) = visited st \<and>
   onStack (reportBackEdge n st) = onStack st"
  by (simp add: reportBackEdge_def Let_def)

lemma reportBackEdge_invariant:
  assumes inv: "dfsInvariant st" and on: "n \<in> onStack st"
    and ne: "stack st \<noteq> []" and top: "n \<noteq> last (stack st)"
  shows "dfsInvariant (reportBackEdge n st)"
proof -
  from inv have d: "distinct (stack st)" and s: "set (stack st) = onStack st"
    by (simp_all add: dfsInvariant_def)
  from on s have mem: "n \<in> set (stack st)" by simp
  from back_edge_slice [OF d mem ne top] obtain ys where
    ys: "sliceFrom (stack st) (indexOf (stack st) n) = ys" "distinct ys" "2 \<le> length ys" "hd ys = n"
    by blast
  from ys(3) have yne: "ys \<noteq> []" by auto
  let ?c = "normalizeCycle (ys @ [n])"
  have c: "?c = normalizeCycle ys"
    using normalizeCycle_closed [OF ys(2) yne] ys(4) by simp
  have wf: "wellFormedResult \<lparr>id_c = join ''->'' ?c, cycle = ?c, length_c = length ?c\<rparr>"
    using distinct_normalizeCycle [OF ys(2)] ys(3) by (simp add: wellFormedResult_def c)
  show ?thesis
  proof (cases "join ''->'' ?c \<in> seenCycles st")
    case True
    then have "reportBackEdge n st = st" by (simp add: reportBackEdge_def Let_def ys(1))
    with inv show ?thesis by simp
  next
    case False
    then have r: "reportBackEdge n st =
        st\<lparr>seenCycles := insert (join ''->'' ?c) (seenCycles st),
           results := results st @ [\<lparr>id_c = join ''->'' ?c, cycle = ?c, length_c = length ?c\<rparr>]\<rparr>"
      by (simp add: reportBackEdge_def Let_def ys(1))
    from inv False wf show ?thesis unfolding r by (auto simp: dfsInvariant_def)
  qed
qed

lemma dfsInvariantD:
  assumes "dfsInvariant st"
  shows "distinct (stack st)" "set (stack st) = onStack st" "onStack st \<subseteq> visited st"
    "\<forall>r \<in> set (results st). wellFormedResult r"
    "distinct (map id_c (results st))" "set (map id_c (results st)) = seenCycles st"
  using assms by (simp_all add: dfsInvariant_def)

lemma dfsInvariantI:
  assumes "distinct (stack st)" "set (stack st) = onStack st" "onStack st \<subseteq> visited st"
    "\<forall>r \<in> set (results st). wellFormedResult r"
    "distinct (map id_c (results st))" "set (map id_c (results st)) = seenCycles st"
  shows "dfsInvariant st"
  using assms by (simp add: dfsInvariant_def)

lemma dfs_push_invariant:
  assumes inv: "dfsInvariant st" and nv: "v \<notin> visited st"
  shows "dfsInvariant (st\<lparr>visited := insert v (visited st), stack := stack st @ [v],
                           onStack := insert v (onStack st)\<rparr>)"
proof (rule dfsInvariantI)
  note D = dfsInvariantD [OF inv]
  from D(2,3) nv have "v \<notin> set (stack st)" by blast
  with D(1) show "distinct (stack (st\<lparr>visited := insert v (visited st), stack := stack st @ [v],
                           onStack := insert v (onStack st)\<rparr>))" by simp
  from D(2) show "set (stack (st\<lparr>visited := insert v (visited st), stack := stack st @ [v],
                           onStack := insert v (onStack st)\<rparr>)) =
      onStack (st\<lparr>visited := insert v (visited st), stack := stack st @ [v],
                           onStack := insert v (onStack st)\<rparr>)" by simp
  from D(3) show "onStack (st\<lparr>visited := insert v (visited st), stack := stack st @ [v],
                           onStack := insert v (onStack st)\<rparr>) \<subseteq>
      visited (st\<lparr>visited := insert v (visited st), stack := stack st @ [v],
                           onStack := insert v (onStack st)\<rparr>)" by auto
  from D(4) show "\<forall>r \<in> set (results (st\<lparr>visited := insert v (visited st), stack := stack st @ [v],
                           onStack := insert v (onStack st)\<rparr>)). wellFormedResult r" by simp
  from D(5) show "distinct (map id_c (results (st\<lparr>visited := insert v (visited st),
      stack := stack st @ [v], onStack := insert v (onStack st)\<rparr>)))" by simp
  from D(6) show "set (map id_c (results (st\<lparr>visited := insert v (visited st),
      stack := stack st @ [v], onStack := insert v (onStack st)\<rparr>))) =
      seenCycles (st\<lparr>visited := insert v (visited st),
      stack := stack st @ [v], onStack := insert v (onStack st)\<rparr>)" by simp
qed

lemma dfs_pop_invariant:
  assumes inv: "dfsInvariant st2" and st: "stack st2 = s @ [v]" and on: "onStack st2 = insert v o'"
    and nv: "v \<notin> o'"
  shows "dfsInvariant (st2\<lparr>stack := butlast (stack st2), onStack := onStack st2 - {v}\<rparr>)"
proof -
  note D = dfsInvariantD [OF inv]
  from D(1) have "distinct (s @ [v])" unfolding st .
  then have ds: "distinct s" and vs: "v \<notin> set s" by simp_all
  from D(2) have "set (s @ [v]) = insert v o'" unfolding st on .
  then have "insert v (set s) = insert v o'" by simp
  with vs nv have s: "set s = o'" by (simp add: insert_ident)
  have b: "butlast (stack st2) = s" unfolding st by simp
  have m: "onStack st2 - {v} = o'" unfolding on using nv by blast
  from D(3) have o2: "o' \<subseteq> visited st2" unfolding on by blast
  show ?thesis unfolding b m
  proof (rule dfsInvariantI)
    show "distinct (stack (st2\<lparr>stack := s, onStack := o'\<rparr>))" using ds by simp
    show "set (stack (st2\<lparr>stack := s, onStack := o'\<rparr>)) = onStack (st2\<lparr>stack := s, onStack := o'\<rparr>)"
      using s by simp
    show "onStack (st2\<lparr>stack := s, onStack := o'\<rparr>) \<subseteq> visited (st2\<lparr>stack := s, onStack := o'\<rparr>)"
      using o2 by simp
    show "\<forall>r \<in> set (results (st2\<lparr>stack := s, onStack := o'\<rparr>)). wellFormedResult r"
      using D(4) by simp
    show "distinct (map id_c (results (st2\<lparr>stack := s, onStack := o'\<rparr>)))" using D(5) by simp
    show "set (map id_c (results (st2\<lparr>stack := s, onStack := o'\<rparr>))) =
        seenCycles (st2\<lparr>stack := s, onStack := o'\<rparr>)" using D(6) by simp
  qed
qed

lemma dfs_Suc_Some:
  assumes "dfs (Suc depth) adjacency nodePath st = Some st'"
  shows "\<exists>st2. forNeighbors depth adjacency
                 (case map_of adjacency nodePath of None \<Rightarrow> [] | Some ns \<Rightarrow> ns)
                 (st\<lparr>visited := insert nodePath (visited st), stack := stack st @ [nodePath],
                     onStack := insert nodePath (onStack st)\<rparr>) = Some st2 \<and>
               st' = st2\<lparr>stack := butlast (stack st2), onStack := onStack st2 - {nodePath}\<rparr>"
proof (cases "forNeighbors depth adjacency
                 (case map_of adjacency nodePath of None \<Rightarrow> [] | Some ns \<Rightarrow> ns)
                 (st\<lparr>visited := insert nodePath (visited st), stack := stack st @ [nodePath],
                     onStack := insert nodePath (onStack st)\<rparr>)")
  case None
  with assms show ?thesis by (simp add: Let_def)
next
  case (Some st2)
  with assms have "st' = st2\<lparr>stack := butlast (stack st2), onStack := onStack st2 - {nodePath}\<rparr>"
    by (simp add: Let_def)
  with Some show ?thesis by simp
qed

lemma forNeighbors_unvisited_Some:
  assumes "forNeighbors depth adjacency (neighbor # rest) st = Some st'" "neighbor \<notin> visited st"
  shows "\<exists>st1. dfs depth adjacency neighbor st = Some st1 \<and>
               forNeighbors depth adjacency rest st1 = Some st'"
proof (cases "dfs depth adjacency neighbor st")
  case None
  with assms show ?thesis by simp
next
  case (Some st1)
  with assms show ?thesis by simp
qed

lemma forNeighbors_visited_Some:
  assumes "forNeighbors depth adjacency (neighbor # rest) st = Some st'" "neighbor \<in> visited st"
  shows "forNeighbors depth adjacency rest
           (if neighbor \<in> onStack st then reportBackEdge neighbor st else st) = Some st'"
  using assms by simp

lemma noSelfLoops_neighbors:
  assumes "noSelfLoops adjacency"
  shows "nodePath \<notin> set (case map_of adjacency nodePath of None \<Rightarrow> [] | Some ns \<Rightarrow> ns)"
proof (cases "map_of adjacency nodePath")
  case None
  then show ?thesis by simp
next
  case (Some ns)
  with assms have "nodePath \<notin> set ns" unfolding noSelfLoops_def by simp
  with Some show ?thesis by simp
qed

lemma dfs_invariant:
  "dfs d adj v st = Some st' \<Longrightarrow> noSelfLoops adj \<Longrightarrow> dfsInvariant st \<Longrightarrow> v \<notin> visited st \<Longrightarrow>
     dfsInvariant st' \<and> stack st' = stack st \<and> onStack st' = onStack st \<and>
     insert v (visited st) \<subseteq> visited st'"
  and forNeighbors_invariant:
  "forNeighbors d adj ns st = Some st' \<Longrightarrow> noSelfLoops adj \<Longrightarrow> dfsInvariant st \<Longrightarrow>
     stack st \<noteq> [] \<Longrightarrow> last (stack st) \<notin> set ns \<Longrightarrow>
     dfsInvariant st' \<and> stack st' = stack st \<and> onStack st' = onStack st \<and>
     visited st \<subseteq> visited st'"
proof (induction d adj v st and d adj ns st arbitrary: st' and st' rule: dfs_forNeighbors.induct)
  case (1 adjacency nodePath st)
  then show ?case by simp
next
  case (2 depth adjacency nodePath st)
  let ?st1 = "st\<lparr>visited := insert nodePath (visited st), stack := stack st @ [nodePath],
                  onStack := insert nodePath (onStack st)\<rparr>"
  let ?ns = "case map_of adjacency nodePath of None \<Rightarrow> [] | Some ns \<Rightarrow> ns"
  from dfs_Suc_Some [OF "2.prems"(1)] obtain st2 where
    loop: "forNeighbors depth adjacency ?ns ?st1 = Some st2"
    and res: "st' = st2\<lparr>stack := butlast (stack st2), onStack := onStack st2 - {nodePath}\<rparr>"
    by (elim exE conjE)
  have inv1: "dfsInvariant ?st1" using "2.prems"(3,4) by (rule dfs_push_invariant)
  have ne1: "stack ?st1 \<noteq> []" by simp
  have top: "last (stack ?st1) \<notin> set ?ns"
    using noSelfLoops_neighbors [OF "2.prems"(2), of nodePath] by simp
  note h = "2.IH" [OF refl refl loop "2.prems"(2) inv1 ne1 top]
  have inv2: "dfsInvariant st2" using h by (rule conjunct1)
  have s2': "stack st2 = stack ?st1" using h [THEN conjunct2] by (rule conjunct1)
  have o2': "onStack st2 = onStack ?st1" using h [THEN conjunct2, THEN conjunct2] by (rule conjunct1)
  have v2': "visited ?st1 \<subseteq> visited st2" using h [THEN conjunct2, THEN conjunct2] by (rule conjunct2)
  from s2' have s2: "stack st2 = stack st @ [nodePath]" by simp
  from o2' have o2: "onStack st2 = insert nodePath (onStack st)" by simp
  from v2' have v2: "insert nodePath (visited st) \<subseteq> visited st2" by simp
  from dfsInvariantD(3) [OF "2.prems"(3)] "2.prems"(4) have nos: "nodePath \<notin> onStack st"
    by (rule contra_subsetD)
  from dfs_pop_invariant [OF inv2 s2 o2 nos] have a: "dfsInvariant st'" unfolding res .
  have b: "stack st' = stack st" unfolding res using s2 by simp
  have c: "onStack st' = onStack st" unfolding res using o2 nos by simp
  have d: "insert nodePath (visited st) \<subseteq> visited st'" unfolding res using v2 by simp
  from a b c d show ?case by (intro conjI)
next
  case (3 depth adjacency st)
  then show ?case by simp
next
  case (4 depth adjacency neighbor rest st)
  from "4.prems"(5) have nl: "neighbor \<noteq> last (stack st)" and rl: "last (stack st) \<notin> set rest"
    by auto
  show ?case
  proof (cases "neighbor \<in> visited st")
    case False
    from forNeighbors_unvisited_Some [OF "4.prems"(1) False] obtain st1 where
      call: "dfs depth adjacency neighbor st = Some st1"
      and loop: "forNeighbors depth adjacency rest st1 = Some st'"
      by (elim exE conjE)
    note h1 = "4.IH"(1) [OF False call "4.prems"(2,3) False]
    have inv1: "dfsInvariant st1" using h1 by (rule conjunct1)
    have s1: "stack st1 = stack st" using h1 [THEN conjunct2] by (rule conjunct1)
    have o1: "onStack st1 = onStack st" using h1 [THEN conjunct2, THEN conjunct2] by (rule conjunct1)
    have v1: "insert neighbor (visited st) \<subseteq> visited st1"
      using h1 [THEN conjunct2, THEN conjunct2] by (rule conjunct2)
    have ne1: "stack st1 \<noteq> []" unfolding s1 by (rule "4.prems"(4))
    have rl1: "last (stack st1) \<notin> set rest" unfolding s1 by (rule rl)
    note h2 = "4.IH"(2) [OF False call loop "4.prems"(2) inv1 ne1 rl1]
    have a: "dfsInvariant st'" using h2 by (rule conjunct1)
    have b: "stack st' = stack st1" using h2 [THEN conjunct2] by (rule conjunct1)
    have c: "onStack st' = onStack st1" using h2 [THEN conjunct2, THEN conjunct2] by (rule conjunct1)
    have d: "visited st1 \<subseteq> visited st'" using h2 [THEN conjunct2, THEN conjunct2] by (rule conjunct2)
    from v1 d have "visited st \<subseteq> visited st'" by (meson insert_subset subset_trans)
    with a b c s1 o1 show ?thesis by simp
  next
    case True
    let ?st1 = "if neighbor \<in> onStack st then reportBackEdge neighbor st else st"
    from forNeighbors_visited_Some [OF "4.prems"(1) True]
    have loop: "forNeighbors depth adjacency rest ?st1 = Some st'" .
    have fr: "stack ?st1 = stack st" "onStack ?st1 = onStack st" "visited ?st1 = visited st"
      by (simp_all add: reportBackEdge_frame)
    have inv1: "dfsInvariant ?st1"
    proof (cases "neighbor \<in> onStack st")
      case True
      from reportBackEdge_invariant [OF "4.prems"(3) True "4.prems"(4) nl] True
      show ?thesis by simp
    next
      case False
      with "4.prems"(3) show ?thesis by simp
    qed
    have ne1: "stack ?st1 \<noteq> []" unfolding fr by (rule "4.prems"(4))
    have rl1: "last (stack ?st1) \<notin> set rest" unfolding fr by (rule rl)
    have nv: "\<not> neighbor \<notin> visited st" using True by simp
    note h3 = "4.IH"(3) [OF nv loop "4.prems"(2) inv1 ne1 rl1]
    from h3 show ?thesis unfolding fr .
  qed
qed

lemma dfsRoots_invariant:
  "dfsRoots d adj ks st = Some st' \<Longrightarrow> noSelfLoops adj \<Longrightarrow> dfsInvariant st \<Longrightarrow>
     dfsInvariant st'"
proof (induction ks arbitrary: st)
  case Nil
  then show ?case by simp
next
  case (Cons k ks)
  show ?case
  proof (cases "k \<in> visited st")
    case True
    with Cons.prems(1) have "dfsRoots d adj ks st = Some st'" by simp
    from Cons.IH [OF this Cons.prems(2,3)] show ?thesis .
  next
    case False
    show ?thesis
    proof (cases "dfs d adj k st")
      case None
      with False Cons.prems(1) show ?thesis by simp
    next
      case (Some st1)
      with False Cons.prems(1) have rest: "dfsRoots d adj ks st1 = Some st'" by simp
      from dfs_invariant [OF Some Cons.prems(2,3) False] have "dfsInvariant st1"
        by (rule conjunct1)
      from Cons.IH [OF rest Cons.prems(2) this] show ?thesis .
    qed
  qed
qed

lemma dfsInvariant_initialState: "dfsInvariant initialState"
  by (simp add: dfsInvariant_def initialState_def)

lemma noSelfLoops_initAdjacency:
  "noSelfLoops adj \<Longrightarrow> noSelfLoops (initAdjacency fps adj)"
proof (induction fps arbitrary: adj)
  case Nil
  then show ?case by simp
next
  case (Cons fp fps)
  show ?case
  proof (cases "map_of adj fp = None")
    case True
    have "noSelfLoops (adj @ [(fp, [])])"
      unfolding noSelfLoops_def
    proof (intro allI impI)
      fix k ns assume a: "map_of (adj @ [(fp, [])]) k = Some ns"
      show "k \<notin> set ns"
      proof (cases "map_of adj k")
        case None
        with a have "ns = []" by (simp add: map_add_def split: if_splits)
        then show ?thesis by simp
      next
        case (Some ns')
        with a have "ns = ns'" by (simp add: map_add_def)
        with Some Cons.prems show ?thesis by (simp add: noSelfLoops_def)
      qed
    qed
    from Cons.IH [OF this] True show ?thesis by simp
  next
    case False
    then have "initAdjacency (fp # fps) adj = initAdjacency fps adj"
      by (simp del: not_None_eq)
    with Cons.IH [OF Cons.prems] show ?thesis by simp
  qed
qed

lemma noSelfLoops_update:
  assumes "noSelfLoops adj" "map_of adj s = Some ts" "s \<noteq> e"
  shows "noSelfLoops (AList.update s (setAdd e ts) adj)"
  unfolding noSelfLoops_def
proof (intro allI impI)
  fix k ns assume a: "map_of (AList.update s (setAdd e ts) adj) k = Some ns"
  show "k \<notin> set ns"
  proof (cases "k = s")
    case True
    with a have ns: "ns = setAdd e ts" by (simp add: update_conv')
    from assms(1,2) have "s \<notin> set ts" by (simp add: noSelfLoops_def)
    with assms(3) True show ?thesis unfolding ns by (simp add: setAdd_def)
  next
    case False
    with a have "map_of adj k = Some ns" by (simp add: update_conv')
    with assms(1) show ?thesis by (simp add: noSelfLoops_def)
  qed
qed

lemma noSelfLoops_addEdges:
  "noSelfLoops adj \<Longrightarrow> noSelfLoops (addEdges fp rels adj)"
proof (induction rels arbitrary: adj)
  case Nil
  then show ?case by simp
next
  case (Cons rel rels)
  note keep = Cons.IH [OF Cons.prems]
  show ?case
  proof (cases "map_of fp (startNode rel)")
    case None
    with keep show ?thesis by simp
  next
    case (Some startPath)
    note sp = Some
    show ?thesis
    proof (cases "map_of fp (endNode rel)")
      case None
      with sp keep show ?thesis by simp
    next
      case (Some endPath)
      note ep = Some
      show ?thesis
      proof (cases "startPath = [] \<or> endPath = [] \<or> startPath = endPath")
        case True
        with sp ep keep show ?thesis by auto
      next
        case False
        show ?thesis
        proof (cases "map_of adj startPath")
          case None
          with sp ep False keep show ?thesis by simp
        next
          case (Some targets)
          from False have "startPath \<noteq> endPath" by simp
          from noSelfLoops_update [OF Cons.prems Some this]
          have "noSelfLoops (AList.update startPath (setAdd endPath targets) adj)" .
          from Cons.IH [OF this] sp ep False Some show ?thesis by simp
        qed
      qed
    qed
  qed
qed

lemma noSelfLoops_buildAdjacency: "noSelfLoops (buildAdjacency fp rels)"
proof -
  have "noSelfLoops []" by (simp add: noSelfLoops_def)
  then have "noSelfLoops (initAdjacency (map snd fp) [])" by (rule noSelfLoops_initAdjacency)
  then show ?thesis unfolding buildAdjacency_def by (rule noSelfLoops_addEdges)
qed

lemma findCircularDependencies_Inr:
  assumes "findCircularDependencies mm nodes rels pats = Some (Inr rs)"
  shows "\<exists>fp st. dfsRoots (dfsBudget (buildAdjacency fp rels)) (buildAdjacency fp rels)
                   (map fst (buildAdjacency fp rels)) initialState = Some st \<and>
                 rs = results st"
  using assms unfolding findCircularDependencies_def Let_def
  by (simp split: sum.splits option.splits if_splits) blast+

lemma findCircularDependencies_invariant:
  assumes "findCircularDependencies mm nodes rels pats = Some (Inr rs)"
  shows "\<exists>st. dfsInvariant st \<and> rs = results st"
proof -
  from findCircularDependencies_Inr [OF assms] obtain fp st where
    run: "dfsRoots (dfsBudget (buildAdjacency fp rels)) (buildAdjacency fp rels)
                   (map fst (buildAdjacency fp rels)) initialState = Some st"
    and rs: "rs = results st" by (elim exE conjE)
  from dfsRoots_invariant [OF run noSelfLoops_buildAdjacency dfsInvariant_initialState] rs
  show ?thesis by (intro exI conjI)
qed

text \<open>
  C1. Every result of \<open>findCircularDependencies\<close> has a \<open>length\<close> of at least 2, and its
  \<open>cycle\<close> has at least two paths and repeats none. An edge from a path to itself is never
  entered in the adjacency map, so no cycle of one element is reported.
\<close>

theorem cycles_well_formed:
  assumes "findCircularDependencies mm nodes rels pats = Some (Inr rs)"
  shows "\<forall>r \<in> set rs. 2 \<le> length_c r \<and> 2 \<le> length (cycle r) \<and> distinct (cycle r)"
proof
  fix r assume r: "r \<in> set rs"
  from findCircularDependencies_invariant [OF assms] obtain st where
    inv: "dfsInvariant st" and rs: "rs = results st" by (elim exE conjE)
  from dfsInvariantD(4) [OF inv] r rs have "wellFormedResult r" by simp
  then show "2 \<le> length_c r \<and> 2 \<le> length (cycle r) \<and> distinct (cycle r)"
    by (simp add: wellFormedResult_def)
qed

theorem cycles_well_formed_witness:
  "findCircularDependencies globMatch
     [fileNode ''a'' ''src/a.ts'', fileNode ''b'' ''src/b.ts'']
     [edge ''imports'' ''a'' ''a'', edge ''imports'' ''a'' ''b'', edge ''imports'' ''b'' ''a''] []
   = Some (Inr [\<lparr>id_c = ''src/a.ts->src/b.ts'', cycle = [''src/a.ts'', ''src/b.ts''], length_c = 2\<rparr>]) \<and>
   2 \<le> length_c \<lparr>id_c = ''src/a.ts->src/b.ts'', cycle = [''src/a.ts'', ''src/b.ts''], length_c = 2\<rparr> \<and>
   distinct (cycle \<lparr>id_c = ''src/a.ts->src/b.ts'', cycle = [''src/a.ts'', ''src/b.ts''], length_c = 2\<rparr>)"
  (is "?ret \<and> ?l \<and> ?d")
proof -
  have ret: ?ret by code_simp
  from cycles_well_formed [OF ret] have "?l \<and> ?d" by simp
  with ret show ?thesis by simp
qed

text \<open>
  C10. Every result of \<open>findCircularDependencies\<close> has as \<open>id\<close> its \<open>cycle\<close> joined by \<open>->\<close>
  and as \<open>length\<close> the number of elements of its \<open>cycle\<close>, and no two results have the same
  \<open>id\<close>.
\<close>

theorem results_ids_distinct:
  assumes "findCircularDependencies mm nodes rels pats = Some (Inr rs)"
  shows "(\<forall>r \<in> set rs. id_c r = join ''->'' (cycle r) \<and> length_c r = length (cycle r)) \<and>
         distinct (map id_c rs)"
proof -
  from findCircularDependencies_invariant [OF assms] obtain st where
    inv: "dfsInvariant st" and rs: "rs = results st" by (elim exE conjE)
  have "id_c r = join ''->'' (cycle r) \<and> length_c r = length (cycle r)" if "r \<in> set rs" for r
  proof -
    from dfsInvariantD(4) [OF inv] that rs have "wellFormedResult r" by simp
    then show ?thesis by (simp add: wellFormedResult_def)
  qed
  moreover from dfsInvariantD(5) [OF inv] rs have "distinct (map id_c rs)" by simp
  ultimately show ?thesis by simp
qed

theorem results_ids_distinct_witness:
  "findCircularDependencies globMatch
     [fileNode ''c'' ''c.ts'', fileNode ''a'' ''a.ts'', fileNode ''b'' ''b.ts'']
     [edge ''imports'' ''a'' ''b'', edge ''imports'' ''b'' ''a'', edge ''imports'' ''a'' ''c'',
      edge ''imports'' ''c'' ''b''] []
   = Some (Inr [\<lparr>id_c = ''a.ts->b.ts'', cycle = [''a.ts'', ''b.ts''], length_c = 2\<rparr>,
                \<lparr>id_c = ''a.ts->b.ts->c.ts'', cycle = [''a.ts'', ''b.ts'', ''c.ts''], length_c = 3\<rparr>]) \<and>
   distinct (map id_c [\<lparr>id_c = ''a.ts->b.ts'', cycle = [''a.ts'', ''b.ts''], length_c = 2\<rparr>,
                \<lparr>id_c = ''a.ts->b.ts->c.ts'', cycle = [''a.ts'', ''b.ts'', ''c.ts''], length_c = 3\<rparr>])"
  (is "?ret \<and> ?d")
proof -
  have ret: ?ret by code_simp
  from results_ids_distinct [OF ret] have ?d by (rule conjunct2)
  with ret show ?thesis by simp
qed


end
